theory Spec2Isabelle
  imports Main "HOL-Library.AList" "HOL-Library.Multiset"
begin

section \<open>The editor application (web-src/src/scripts/app.ts)\<close>

text \<open>
  The development embeds four methods of the class \<open>ComfyApp\<close>: \<open>registerExtension\<close>,
  \<open>loadGraphData\<close> (up to the call of \<open>graph.configure\<close>), \<open>graphToPrompt\<close> and
  \<open>queuePrompt\<close>. Mutable fields of the application become fields of a state record that
  every function takes and returns; a thrown exception is a value of \<open>js_error\<close>; a loop
  that may run forever is a \<^theory_text>\<open>partial_function\<close> in the option monad, where
  \<open>None\<close> means that the loop never returns.
\<close>

subsection \<open>Errors\<close>

text \<open>
  \<open>TypeError\<close> is the error of reading a member of \<open>undefined\<close> or \<open>null\<close>; \<open>Thrown\<close> is
  an error that a callback supplied from outside the sources throws (or the rejection of
  the promise it returns), with a text that tells it apart.
\<close>

datatype js_error =
    ExtensionNameMissing
  | ExtensionAlreadyRegistered string
  | TypeError
  | Thrown string

subsection \<open>registerExtension\<close>

text \<open>
  An extension object as \<open>registerExtension\<close> reads it: only its \<open>name\<close> member, which a
  JavaScript caller may leave out (\<open>None\<close>). The condition \<open>!extension.name\<close> holds for
  a missing name and for the empty string.
\<close>

record extension =
  ext_name :: "string option"

definition falsy_name :: "string option \<Rightarrow> bool" where
  "falsy_name n = (case n of None \<Rightarrow> True | Some s \<Rightarrow> s = [])"

text \<open>
  The method either throws (first component \<open>Some\<close> of the error, the list
  \<open>this.extensions\<close> as it was) or pushes the extension.
\<close>

definition registerExtension ::
  "extension \<Rightarrow> extension list \<Rightarrow> js_error option \<times> extension list" where
  "registerExtension e extensions =
     (if falsy_name (ext_name e) then (Some ExtensionNameMissing, extensions)
      else if find (\<lambda>ext. ext_name ext = ext_name e) extensions \<noteq> None
        then (Some (ExtensionAlreadyRegistered (case ext_name e of Some s \<Rightarrow> s | None \<Rightarrow> [])),
              extensions)
      else (None, extensions @ [e]))"

subsection \<open>loadGraphData: legacy node types\<close>

text \<open>
  A serialized node of a graph document; the loop of \<open>loadGraphData\<close> reads and writes
  only its \<open>type\<close>.
\<close>

record serialized_node =
  sn_id :: nat
  sn_type :: string

record graph_document =
  doc_nodes :: "serialized_node list"

text \<open>The three patches, applied one after the other as the three \<open>if\<close> statements are.\<close>

definition patch_type :: "string \<Rightarrow> string" where
  "patch_type t =
     (let t1 = (if t = ''T2IAdapterLoader'' then ''ControlNetLoader'' else t);
          t2 = (if t1 = ''ConditioningAverage '' then ''ConditioningAverage'' else t1)
      in (if t2 = ''SDV_img2vid_Conditioning'' then ''SVD_img2vid_Conditioning'' else t2))"

text \<open>
  \<open>sanitizeNodeName\<close> replaces each of the characters \<open>&\<close>, \<open><\<close>, \<open>>\<close>, double quote,
  single quote, backquote and \<open>=\<close> by the empty string.
\<close>

definition entityMap :: "char list" where
  "entityMap = [CHR ''&'', CHR ''<'', CHR ''>'', CHR 0x22, CHR 0x27, CHR 0x60, CHR ''='']"

definition sanitizeNodeName :: "string \<Rightarrow> string" where
  "sanitizeNodeName s = filter (\<lambda>c. c \<notin> set entityMap) s"

text \<open>
  The loop \<open>for (let n of graphData.nodes)\<close>. \<open>registered\<close> stands for
  \<open>n.type in LiteGraph.registered_node_types\<close>, a table of the graph library. The result
  is the patched node and whether its type was pushed to \<open>missingNodeTypes\<close>.
\<close>

definition patch_node :: "(string \<Rightarrow> bool) \<Rightarrow> serialized_node \<Rightarrow> serialized_node \<times> string list" where
  "patch_node registered n =
     (let t = patch_type (sn_type n)
      in if registered t then (n\<lparr>sn_type := t\<rparr>, [])
         else (n\<lparr>sn_type := sanitizeNodeName t\<rparr>, [t]))"

fun patch_nodes ::
  "(string \<Rightarrow> bool) \<Rightarrow> serialized_node list \<Rightarrow> string list \<Rightarrow> serialized_node list \<times> string list" where
  "patch_nodes registered [] missingNodeTypes = ([], missingNodeTypes)"
| "patch_nodes registered (n # ns) missingNodeTypes =
     (case patch_node registered n of
        (n', pushed) \<Rightarrow>
          (case patch_nodes registered ns (missingNodeTypes @ pushed) of
             (ns', missing') \<Rightarrow> (n' # ns', missing')))"

text \<open>
  What \<open>loadGraphData\<close> is given by its collaborators: the default graph, the extensions'
  \<open>beforeConfigureGraph\<close> callbacks (they receive the cloned document and the list of
  missing types and may change both), the table of registered node types and
  \<open>graph.configure\<close>, which either throws or builds the graph.
\<close>

record 'g load_env =
  defaultGraph :: graph_document
  beforeConfigureGraph :: "graph_document \<Rightarrow> string list \<Rightarrow> graph_document \<times> string list"
  registered_node_types :: "string \<Rightarrow> bool"
  configure :: "graph_document \<Rightarrow> js_error + 'g"

text \<open>The document as the extensions leave it, before the loop over its nodes.\<close>

definition document_before_patch :: "'g load_env \<Rightarrow> graph_document option \<Rightarrow> graph_document" where
  "document_before_patch env graphData =
     fst (beforeConfigureGraph env
            (case graphData of None \<Rightarrow> defaultGraph env | Some d \<Rightarrow> d) [])"

text \<open>The document that \<open>graph.configure\<close> receives, and \<open>missingNodeTypes\<close> at that point.\<close>

definition document_configured ::
  "'g load_env \<Rightarrow> graph_document option \<Rightarrow> graph_document \<times> string list" where
  "document_configured env graphData =
     (case beforeConfigureGraph env
             (case graphData of None \<Rightarrow> defaultGraph env | Some d \<Rightarrow> d) [] of
        (gd, missing0) \<Rightarrow>
          (case patch_nodes (registered_node_types env) (doc_nodes gd) missing0 of
             (ns, missing) \<Rightarrow> (gd\<lparr>doc_nodes := ns\<rparr>, missing)))"

text \<open>
  \<open>loadGraphData\<close> up to the \<open>try\<close> block around \<open>graph.configure\<close>: the result of
  configuring (an error aborts the load) and the missing node types.
\<close>

definition loadGraphData ::
  "'g load_env \<Rightarrow> graph_document option \<Rightarrow> (js_error + 'g) \<times> string list" where
  "loadGraphData env graphData =
     (case document_configured env graphData of
        (gd, missing) \<Rightarrow> (configure env gd, missing))"

section \<open>The graph and graphToPrompt\<close>

subsection \<open>JavaScript values\<close>

text \<open>
  The values that widget entries and compiled inputs hold. Numbers are integers here
  (slot indices and seeds); an array is a list of values.
\<close>

datatype jsval = JUndefined | JNull | JBool bool | JNum int | JStr string | JArr "jsval list"

definition digit_chars :: string where
  "digit_chars = ''0123456789''"

text \<open>\<open>String(n)\<close> for a natural number: its decimal digits.\<close>

function String_nat :: "nat \<Rightarrow> string" where
  "String_nat n =
     (if n < 10 then [digit_chars ! n]
      else String_nat (n div 10) @ [digit_chars ! (n mod 10)])"
  by pat_completeness auto
termination
  by (relation "measure (\<lambda>n. n)") auto

declare String_nat.simps [simp del]

definition String_int :: "int \<Rightarrow> string" where
  "String_int i = (if i < 0 then CHR ''-'' # String_nat (nat (- i)) else String_nat (nat i))"

fun join_comma :: "string list \<Rightarrow> string" where
  "join_comma [] = []"
| "join_comma [s] = s"
| "join_comma (s # t # ss) = s @ '','' @ join_comma (t # ss)"

text \<open>
  The property key that \<open>output[v]\<close> looks up: the string of \<open>v\<close>. An array is joined
  with commas, \<open>null\<close> and \<open>undefined\<close> elements giving the empty string.
\<close>

fun to_key :: "jsval \<Rightarrow> string" where
  "to_key JUndefined = ''undefined''"
| "to_key JNull = ''null''"
| "to_key (JBool b) = (if b then ''true'' else ''false'')"
| "to_key (JNum i) = String_int i"
| "to_key (JStr s) = s"
| "to_key (JArr vs) =
     join_comma (map (\<lambda>v. case v of JUndefined \<Rightarrow> [] | JNull \<Rightarrow> [] | _ \<Rightarrow> to_key v) vs)"

subsection \<open>Objects used as dictionaries\<close>

text \<open>
  \<open>inputs\<close> and \<open>output\<close> are objects created by \<open>{}\<close>. Their own properties are kept as
  an association list in the order in which JavaScript enumerates them: first the keys
  that are array indices (the decimal string, without leading zeros, of a number below
  \<open>2\<^sup>3\<^sup>2 - 1\<close>) in ascending order, then the other keys in the order in which they
  were created.
\<close>

definition digit_of :: "char \<Rightarrow> nat option" where
  "digit_of c =
     map_of [(CHR ''0'', 0), (CHR ''1'', 1), (CHR ''2'', 2), (CHR ''3'', 3), (CHR ''4'', 4),
             (CHR ''5'', 5), (CHR ''6'', 6), (CHR ''7'', 7), (CHR ''8'', 8), (CHR ''9'', 9)] c"

fun read_digits :: "string \<Rightarrow> nat \<Rightarrow> nat option" where
  "read_digits [] acc = Some acc"
| "read_digits (c # cs) acc =
     (case digit_of c of None \<Rightarrow> None | Some d \<Rightarrow> read_digits cs (10 * acc + d))"

definition array_index :: "string \<Rightarrow> nat option" where
  "array_index k =
     (if k = [] \<or> (hd k = CHR ''0'' \<and> 1 < length k) then None
      else
        (case read_digits k 0 of
           None \<Rightarrow> None
         | Some n \<Rightarrow> if n < 4294967295 then Some n else None))"

text \<open>A new property whose key is the array index \<open>n\<close> goes before the first key that
  is not a smaller index.\<close>

fun insert_index :: "nat \<Rightarrow> string \<Rightarrow> 'v \<Rightarrow> (string \<times> 'v) list \<Rightarrow> (string \<times> 'v) list" where
  "insert_index n k v [] = [(k, v)]"
| "insert_index n k v ((k', v') # rest) =
     (case array_index k' of
        None \<Rightarrow> (k, v) # (k', v') # rest
      | Some m \<Rightarrow>
          if m < n then (k', v') # insert_index n k v rest else (k, v) # (k', v') # rest)"

text \<open>
  \<open>obj[k] = v\<close> for a key that goes to an own property: a property that exists keeps its
  place and takes the value; a new property takes the place that the order above gives
  it.
\<close>

definition js_put :: "string \<Rightarrow> 'v \<Rightarrow> (string \<times> 'v) list \<Rightarrow> (string \<times> 'v) list" where
  "js_put k v ps =
     (case map_of ps k of
        Some old \<Rightarrow> AList.update k v ps
      | None \<Rightarrow>
          (case array_index k of
             Some n \<Rightarrow> insert_index n k v ps
           | None \<Rightarrow> ps @ [(k, v)]))"

text \<open>
  An object created by \<open>{}\<close> inherits the members of \<open>Object.prototype\<close>: reading one of
  these names from the object gives a function (for \<open>__proto__\<close>, the prototype itself),
  which is truthy. The list is that of the language standard with its legacy annex;
  members that other scripts may have added to \<open>Object.prototype\<close> are not modelled.
\<close>

definition Object_prototype :: "string list" where
  "Object_prototype =
     [''constructor'', ''__defineGetter__'', ''__defineSetter__'', ''hasOwnProperty'',
      ''__lookupGetter__'', ''__lookupSetter__'', ''isPrototypeOf'', ''propertyIsEnumerable'',
      ''toString'', ''valueOf'', ''__proto__'', ''toLocaleString'']"

text \<open>
  The object \<open>inputs\<close> while a step is built: its own properties, and whether its
  prototype has become \<open>null\<close>. Writing the key \<open>__proto__\<close> calls the setter that the
  object inherits from \<open>Object.prototype\<close>: no own property is created; the value becomes
  the prototype when it is an object (here: an array) or \<open>null\<close>, and is dropped otherwise.
  Once the prototype is \<open>null\<close> there is no setter, and \<open>__proto__\<close> is a key like any
  other. Whatever array the prototype is, it adds nothing to the own properties.
\<close>

type_synonym inputs_acc = "(string \<times> jsval) list \<times> bool"

definition put_input :: "string \<Rightarrow> jsval \<Rightarrow> inputs_acc \<Rightarrow> inputs_acc" where
  "put_input k v acc =
     (case acc of (ins, null_proto) \<Rightarrow>
        if k = ''__proto__'' \<and> \<not> null_proto then (ins, v = JNull)
        else (js_put k v ins, null_proto))"

subsection \<open>Nodes, widgets, links\<close>

text \<open>
  The classes \<open>ComfyNode\<close>, \<open>ComfyWidget\<close>, \<open>ComfyGraph\<close> and the graph library are not
  among the sources; the records hold the members that \<open>graphToPrompt\<close> and
  \<open>queuePrompt\<close> read. A node id is a number or a string (\<open>loadApiJson\<close> assigns string
  ids); \<open>String(id)\<close> is the key of the node's step.
\<close>

datatype ident = NumId int | StrId string

fun String_ident :: "ident \<Rightarrow> string" where
  "String_ident (NumId i) = String_int i"
| "String_ident (StrId s) = s"

text \<open>
  An input slot has a name, a type and the id of its incoming link (\<open>null\<close> when
  unconnected).
\<close>

record slot =
  slot_name :: string
  slot_type :: string
  slot_link :: "nat option"

record widget_options =
  serialize :: "bool option"

text \<open>
  A widget. \<open>beforeQueued\<close> and \<open>afterQueued\<close> are optional callbacks supplied by widget
  code outside the sources. Modelled from the spec: they are the "optional
  pre/post-submission callbacks (e.g., to advance a random seed value)" of a widget; each
  is taken as a function of the widget's current value whose result is stored as the
  widget's new value. The third callback of a widget, \<open>serializeValue\<close>, is among the
  hooks below.
\<close>

record widget =
  w_name :: string
  w_value :: jsval
  options :: "widget_options option"
  beforeQueued :: "(jsval \<Rightarrow> jsval) option"
  afterQueued :: "(jsval \<Rightarrow> jsval) option"

text \<open>
  A node. \<open>mode\<close> 2 is "never", 4 is "bypass". A node without \<open>inputs\<close> or \<open>widgets\<close> has
  the empty list: the code treats a missing array and an empty one alike.
\<close>

record node =
  node_id :: ident
  mode :: nat
  isVirtualNode :: bool
  inputs :: "slot list"
  widgets :: "widget list"
  comfyClass :: string
  title :: string

record llink =
  origin_id :: ident
  origin_slot :: nat
  target_id :: ident
  target_slot :: nat

text \<open>
  The state that a compilation reads and that callbacks may change: the node objects of
  the graph, its table of links by link id, and, as one value, whatever state outside
  the graph the callbacks read and write (a random generator, the page).
\<close>

record graph =
  nodes :: "node list"
  links :: "(nat \<times> llink) list"
  outside :: jsval

text \<open>
  Methods that extensions and the graph library provide and \<open>graphToPrompt\<close> calls. They
  are parameters of the model, an absent method being \<open>None\<close>.
  \<open>graph.computeExecutionOrder\<close> gives the ids of the outer nodes in execution order, and
  \<open>getInnerNodes\<close> the inner nodes of a group node; both read the state.
  \<open>applyToGraph\<close> of a virtual node changes the state.
  \<open>widget.serializeValue(node, i)\<close>, found by the node and the index of the widget, and
  \<open>parent.updateLink(link)\<close> are arbitrary callbacks: each reads the state, and returns a
  value or throws, with the state as it has left it. \<open>devMode\<close> is the setting
  \<open>Comfy.DevMode\<close>.
\<close>

record hooks =
  computeExecutionOrder :: "graph \<Rightarrow> ident list"
  getInnerNodes :: "graph \<Rightarrow> node \<Rightarrow> node list option"
  applyToGraph :: "node \<Rightarrow> (graph \<Rightarrow> graph) option"
  serializeValue :: "node \<Rightarrow> nat \<Rightarrow> (graph \<Rightarrow> (js_error + jsval) \<times> graph) option"
  updateLink :: "node \<Rightarrow> (graph \<Rightarrow> llink \<Rightarrow> (js_error + llink option) \<times> graph) option"
  devMode :: bool

text \<open>
  A compiled step and the result of \<open>graphToPrompt\<close>. The result holds the own properties
  of \<open>output\<close>, which are what is sent as JSON. Of the serialized workflow only the node
  ids are kept, which is what \<open>queuePrompt\<close> reads of it.
\<close>

record workflow_step =
  class_type :: string
  step_inputs :: "(string \<times> jsval) list"
  meta_title :: "string option"

record prompt =
  prompt_workflow :: "ident list"
  prompt_output :: "(string \<times> workflow_step) list"

text \<open>
  The object \<open>output\<close> while it is built: its own properties and, when a node whose id is
  the string \<open>__proto__\<close> has been compiled, the step of that node. The assignment
  \<open>output[String(node.id)] = node_data\<close> with that key calls the inherited setter, which
  makes the step the prototype of \<open>output\<close> and creates no own property.
\<close>

type_synonym output_acc = "(string \<times> workflow_step) list \<times> workflow_step option"

definition put_step :: "string \<Rightarrow> workflow_step \<Rightarrow> output_acc \<Rightarrow> output_acc" where
  "put_step k st out =
     (case out of (own, inherited) \<Rightarrow>
        if k = ''__proto__'' then (own, Some st) else (js_put k st own, inherited))"

subsection \<open>Graph library methods\<close>

text \<open>
  Modelled from the spec: \<open>getNodeById\<close>, \<open>getInputLink\<close> and \<open>getInputNode\<close> belong to the
  graph library. A link is a directed edge from an origin node id and output slot to a
  target node id and input slot, a target input slot has at most one incoming link, and
  the graph finds a node by its id. So the link of an input slot is the table entry of
  the slot's link id, and the node of an input slot is the node with that link's origin
  id; either is absent when the slot does not exist or is unconnected.
\<close>

definition getNodeById :: "graph \<Rightarrow> ident \<Rightarrow> node option" where
  "getNodeById g i = find (\<lambda>n. node_id n = i) (nodes g)"

definition getInputLink :: "graph \<Rightarrow> node \<Rightarrow> nat \<Rightarrow> llink option" where
  "getInputLink g n slot =
     (if slot < length (inputs n)
      then (case slot_link (inputs n ! slot) of None \<Rightarrow> None | Some l \<Rightarrow> map_of (links g) l)
      else None)"

definition getInputNode :: "graph \<Rightarrow> node \<Rightarrow> nat \<Rightarrow> node option" where
  "getInputNode g n slot =
     (case getInputLink g n slot of None \<Rightarrow> None | Some l \<Rightarrow> getNodeById g (origin_id l))"

text \<open>\<open>graph.serialize()\<close>, reduced to the ids of the serialized nodes.\<close>

definition graph_serialize :: "graph \<Rightarrow> ident list" where
  "graph_serialize g = map node_id (nodes g)"

text \<open>
  A node object that the compilation holds while a callback changes the state is read
  again where the code reads it again: it is the node of the state with the same id,
  or, for a node that the state does not have (an inner node of a group), the object as
  it was.
\<close>

definition live :: "graph \<Rightarrow> node \<Rightarrow> node" where
  "live g node = (case getNodeById g (node_id node) of None \<Rightarrow> node | Some n \<Rightarrow> n)"

subsection \<open>First loop of graphToPrompt: callbacks before queueing\<close>

definition run_beforeQueued :: "widget \<Rightarrow> widget" where
  "run_beforeQueued w =
     (case beforeQueued w of None \<Rightarrow> w | Some f \<Rightarrow> w\<lparr>w_value := f (w_value w)\<rparr>)"

text \<open>A node object is mutated in place: the graph's node of that id is replaced.\<close>

definition update_node :: "ident \<Rightarrow> (node \<Rightarrow> node) \<Rightarrow> graph \<Rightarrow> graph" where
  "update_node i f g = g\<lparr>nodes := map (\<lambda>n. if node_id n = i then f n else n) (nodes g)\<rparr>"

text \<open>\<open>outerNode.getInnerNodes ? outerNode.getInnerNodes() : [outerNode]\<close>\<close>

definition inner_nodes :: "hooks \<Rightarrow> graph \<Rightarrow> node \<Rightarrow> node list" where
  "inner_nodes h g outerNode =
     (case getInnerNodes h g outerNode of Some ns \<Rightarrow> ns | None \<Rightarrow> [outerNode])"

definition apply_virtual :: "hooks \<Rightarrow> node \<Rightarrow> graph \<Rightarrow> graph" where
  "apply_virtual h n g =
     (if isVirtualNode n then (case applyToGraph h n of Some f \<Rightarrow> f g | None \<Rightarrow> g) else g)"

text \<open>
  The body of the first loop for one outer node: \<open>beforeQueued\<close> of each of its widgets,
  then \<open>applyToGraph\<close> of each virtual inner node.
\<close>

definition before_outer :: "hooks \<Rightarrow> ident \<Rightarrow> graph \<Rightarrow> graph" where
  "before_outer h i g =
     (let g1 = update_node i (\<lambda>n. n\<lparr>widgets := map run_beforeQueued (widgets n)\<rparr>) g
      in case getNodeById g1 i of
           None \<Rightarrow> g1
         | Some outerNode \<Rightarrow> fold (apply_virtual h) (inner_nodes h g1 outerNode) g1)"

subsection \<open>Second loop: widget values\<close>

text \<open>\<open>!widget.options || widget.options.serialize !== false\<close>\<close>

definition serialized :: "widget \<Rightarrow> bool" where
  "serialized w = (case options w of None \<Rightarrow> True | Some opts \<Rightarrow> serialize opts \<noteq> Some False)"

text \<open>
  The loop \<open>for (const i in widgets)\<close>, over the indices that the array had when the loop
  began; an index that a callback has removed meanwhile is passed over. The name of the
  widget is read before \<open>serializeValue\<close> is called. An error of the callback leaves
  \<open>graphToPrompt\<close>.
\<close>

fun store_widgets ::
  "hooks \<Rightarrow> node \<Rightarrow> nat list \<Rightarrow> graph \<Rightarrow> inputs_acc \<Rightarrow> (js_error + inputs_acc) \<times> graph" where
  "store_widgets h node [] g acc = (Inr acc, g)"
| "store_widgets h node (i # rest) g acc =
     (if i < length (widgets (live g node)) \<and> serialized (widgets (live g node) ! i) then
        (case serializeValue h (live g node) i of
           None \<Rightarrow>
             store_widgets h node rest g
               (put_input (w_name (widgets (live g node) ! i))
                  (w_value (widgets (live g node) ! i)) acc)
         | Some f \<Rightarrow>
             (case f g of
                (Inl e, g') \<Rightarrow> (Inl e, g')
              | (Inr v, g') \<Rightarrow>
                  store_widgets h node rest g'
                    (put_input (w_name (widgets (live g node) ! i)) v acc)))
      else store_widgets h node rest g acc)"

subsection \<open>Second loop: links, skipping virtual and bypassed producers\<close>

text \<open>
  The search of the bypass branch: \<open>all_inputs\<close> is the origin slot of the current link
  followed by the keys of \<open>parent.inputs\<close>; the first entry that names an input of the
  parent whose type is the type of the slot being resolved is taken.
\<close>

definition matching_input :: "node \<Rightarrow> string \<Rightarrow> llink \<Rightarrow> nat option" where
  "matching_input parent ty l =
     find (\<lambda>k. k < length (inputs parent) \<and> slot_type (inputs parent ! k) = ty)
       (origin_slot l # [0..<length (inputs parent)])"

text \<open>
  The loop \<open>while (parent.mode === 4 || parent.isVirtualNode)\<close> with its variables
  \<open>parent\<close> and \<open>link\<close>; \<open>ty\<close> is \<open>node.inputs[i].type\<close>. The result is the pair of
  variables when the loop is left. \<open>TypeError\<close> is the error of reading a member of
  \<open>undefined\<close>: \<open>link.origin_slot\<close> in the virtual branch, and \<open>parent.mode\<close> in the loop
  condition after the bypass branch has set \<open>parent\<close> to a node that does not exist.
  \<open>None\<close>: the loop does not return.
\<close>

partial_function (option) bypass_loop ::
  "graph \<Rightarrow> string \<Rightarrow> node \<Rightarrow> llink option \<Rightarrow> (js_error + node option \<times> llink option) option" where
  "bypass_loop g ty parent link =
     (if mode parent = 4 \<or> isVirtualNode parent then
        (if isVirtualNode parent then
           (case link of
              None \<Rightarrow> Some (Inl TypeError)
            | Some l \<Rightarrow>
                (case getInputLink g parent (origin_slot l) of
                   None \<Rightarrow> Some (Inr (Some parent, None))
                 | Some l' \<Rightarrow>
                     (case getInputNode g parent (target_slot l') of
                        None \<Rightarrow> Some (Inr (None, Some l'))
                      | Some p' \<Rightarrow> bypass_loop g ty p' (Some l'))))
         else
           (case link of
              None \<Rightarrow> Some (Inr (Some parent, None))
            | Some l \<Rightarrow>
                (if mode parent = 4 then
                   (case matching_input parent ty l of
                      None \<Rightarrow> Some (Inr (Some parent, Some l))
                    | Some k \<Rightarrow>
                        (case getInputLink g parent k of
                           None \<Rightarrow> bypass_loop g ty parent None
                         | Some l' \<Rightarrow>
                             (case getInputNode g parent k of
                                None \<Rightarrow> Some (Inl TypeError)
                              | Some p' \<Rightarrow> bypass_loop g ty p' (Some l'))))
                 else Some (Inr (Some parent, Some l)))))
      else Some (Inr (Some parent, link)))"

text \<open>\<open>[String(link.origin_id), parseInt(link.origin_slot)]\<close>\<close>

definition reference_pair :: "llink \<Rightarrow> jsval" where
  "reference_pair l = JArr [JStr (String_ident (origin_id l)), JNum (int (origin_slot l))]"

text \<open>
  After the loop: \<open>if (link)\<close>, the link goes through \<open>parent.updateLink\<close> when the parent
  has that method, and a link that is still there is recorded under the input's name,
  which is read from the node after the callback; \<open>TypeError\<close> when the node has lost the
  input meanwhile.
\<close>

definition record_pair :: "node \<Rightarrow> nat \<Rightarrow> llink \<Rightarrow> inputs_acc \<Rightarrow> js_error + inputs_acc" where
  "record_pair node i l acc =
     (if i < length (inputs node)
      then Inr (put_input (slot_name (inputs node ! i)) (reference_pair l) acc)
      else Inl TypeError)"

definition record_link ::
  "hooks \<Rightarrow> node \<Rightarrow> nat \<Rightarrow> node option \<Rightarrow> llink option \<Rightarrow> graph \<Rightarrow> inputs_acc \<Rightarrow>
   (js_error + inputs_acc) \<times> graph" where
  "record_link h node i parent link g acc =
     (case link of
        None \<Rightarrow> (Inr acc, g)
      | Some l \<Rightarrow>
          (case (case parent of None \<Rightarrow> None | Some p \<Rightarrow> updateLink h p) of
             None \<Rightarrow> (record_pair (live g node) i l acc, g)
           | Some f \<Rightarrow>
               (case f g l of
                  (Inl e, g') \<Rightarrow> (Inl e, g')
                | (Inr None, g') \<Rightarrow> (Inr acc, g')
                | (Inr (Some l'), g') \<Rightarrow> (record_pair (live g' node) i l' acc, g'))))"

text \<open>
  The loop \<open>for (let i in node.inputs)\<close>, over the indices that the array had when the
  loop began. An input that the node no longer has gives no input node and is passed
  over.
\<close>

fun store_links ::
  "hooks \<Rightarrow> node \<Rightarrow> nat list \<Rightarrow> graph \<Rightarrow> inputs_acc \<Rightarrow>
   ((js_error + inputs_acc) \<times> graph) option" where
  "store_links h node [] g acc = Some (Inr acc, g)"
| "store_links h node (i # rest) g acc =
     (case getInputNode g (live g node) i of
        None \<Rightarrow> store_links h node rest g acc
      | Some parent \<Rightarrow>
          (case bypass_loop g (slot_type (inputs (live g node) ! i)) parent
                  (getInputLink g (live g node) i) of
             None \<Rightarrow> None
           | Some (Inl e) \<Rightarrow> Some (Inl e, g)
           | Some (Inr (parent', link)) \<Rightarrow>
               (case record_link h node i parent' link g acc of
                  (Inl e, g') \<Rightarrow> Some (Inl e, g')
                | (Inr acc', g') \<Rightarrow> store_links h node rest g' acc')))"

subsection \<open>Second loop: one step per node that is neither virtual nor muted\<close>

definition node_data :: "hooks \<Rightarrow> node \<Rightarrow> (string \<times> jsval) list \<Rightarrow> workflow_step" where
  "node_data h node ins =
     \<lparr>class_type = comfyClass node, step_inputs = ins,
      meta_title = (if devMode h then Some (title node) else None)\<rparr>"

definition serialize_node ::
  "hooks \<Rightarrow> node \<Rightarrow> graph \<Rightarrow> output_acc \<Rightarrow> ((js_error + output_acc) \<times> graph) option" where
  "serialize_node h node g out =
     (if isVirtualNode node then Some (Inr out, g)
      else if mode node = 2 \<or> mode node = 4 then Some (Inr out, g)
      else
        (case store_widgets h node [0..<length (widgets node)] g ([], False) of
           (Inl e, g1) \<Rightarrow> Some (Inl e, g1)
         | (Inr acc, g1) \<Rightarrow>
             (case store_links h node [0..<length (inputs (live g1 node))] g1 acc of
                None \<Rightarrow> None
              | Some (Inl e, g2) \<Rightarrow> Some (Inl e, g2)
              | Some (Inr acc', g2) \<Rightarrow>
                  Some (Inr (put_step (String_ident (node_id (live g2 node)))
                               (node_data h (live g2 node) (fst acc')) out), g2))))"

text \<open>The loop \<open>for (const node of innerNodes)\<close>.\<close>

fun serialize_nodes ::
  "hooks \<Rightarrow> node list \<Rightarrow> graph \<Rightarrow> output_acc \<Rightarrow> ((js_error + output_acc) \<times> graph) option" where
  "serialize_nodes h [] g out = Some (Inr out, g)"
| "serialize_nodes h (node # rest) g out =
     (case serialize_node h (live g node) g out of
        None \<Rightarrow> None
      | Some (Inl e, g') \<Rightarrow> Some (Inl e, g')
      | Some (Inr out', g') \<Rightarrow> serialize_nodes h rest g' out')"

text \<open>
  \<open>!skipNode && outerNode.getInnerNodes ? outerNode.getInnerNodes() : [outerNode]\<close>, where
  \<open>skipNode\<close> is \<open>outerNode.mode === 2 || outerNode.mode === 4\<close>.
\<close>

definition compiled_nodes :: "hooks \<Rightarrow> graph \<Rightarrow> node \<Rightarrow> node list" where
  "compiled_nodes h g outerNode =
     (if mode outerNode = 2 \<or> mode outerNode = 4 then [outerNode]
      else inner_nodes h g outerNode)"

text \<open>The loop over the outer nodes in execution order.\<close>

fun serialize_outer ::
  "hooks \<Rightarrow> ident list \<Rightarrow> graph \<Rightarrow> output_acc \<Rightarrow> ((js_error + output_acc) \<times> graph) option" where
  "serialize_outer h [] g out = Some (Inr out, g)"
| "serialize_outer h (i # rest) g out =
     (case getNodeById g i of
        None \<Rightarrow> serialize_outer h rest g out
      | Some outerNode \<Rightarrow>
          (case serialize_nodes h (compiled_nodes h g outerNode) g out of
             None \<Rightarrow> None
           | Some (Inl e, g') \<Rightarrow> Some (Inl e, g')
           | Some (Inr out', g') \<Rightarrow> serialize_outer h rest g' out'))"

subsection \<open>Cleanup pass\<close>

text \<open>
  Whether \<open>output[k]\<close> is truthy. An own property of \<open>output\<close> is a step, which is an
  object. A name that is not an own property is looked up in the prototype chain: in
  the step that a node with the id \<open>__proto__\<close> has made the prototype, where
  \<open>class_type\<close> is a string (falsy when empty), \<open>inputs\<close> an object and \<open>_meta\<close>, when the
  step has it, an object; then in \<open>Object.prototype\<close>.
\<close>

definition step_member :: "workflow_step \<Rightarrow> string \<Rightarrow> bool" where
  "step_member st k =
     (k = ''class_type'' \<and> class_type st \<noteq> [] \<or> k = ''inputs'' \<or>
      k = ''_meta'' \<and> meta_title st \<noteq> None)"

definition output_has :: "output_acc \<Rightarrow> string \<Rightarrow> bool" where
  "output_has out k =
     (case out of (own, inherited) \<Rightarrow>
        map_of own k \<noteq> None \<or>
        (case inherited of None \<Rightarrow> False | Some st \<Rightarrow> step_member st k) \<or>
        k \<in> set Object_prototype)"

text \<open>\<open>Array.isArray(v) && v.length === 2 && !output[v[0]]\<close>\<close>

fun dangling :: "output_acc \<Rightarrow> jsval \<Rightarrow> bool" where
  "dangling out (JArr [a, b]) = (\<not> output_has out (to_key a))"
| "dangling out v = False"

text \<open>The loop \<open>for (const i in output[o].inputs)\<close>, over the keys the inputs had.\<close>

fun prune_inputs ::
  "output_acc \<Rightarrow> string list \<Rightarrow> (string \<times> jsval) list \<Rightarrow> (string \<times> jsval) list" where
  "prune_inputs out [] ins = ins"
| "prune_inputs out (i # rest) ins =
     prune_inputs out rest
       (case map_of ins i of
          None \<Rightarrow> ins
        | Some v \<Rightarrow> if dangling out v then AList.delete i ins else ins)"

text \<open>
  The loop \<open>for (const o in output)\<close>, over the own keys of the output. When the output has
  a step as its prototype, the loop also visits the names \<open>class_type\<close>, \<open>inputs\<close> and
  \<open>_meta\<close> that \<open>output\<close> inherits from it; these visits change no own property of
  \<open>output\<close> or of a step (the one for \<open>inputs\<close> can only delete elements of an array that
  the inherited step holds under the name \<open>inputs\<close>), and are left out.
\<close>

fun cleanup_loop :: "string list \<Rightarrow> output_acc \<Rightarrow> output_acc" where
  "cleanup_loop [] out = out"
| "cleanup_loop (k # rest) out =
     cleanup_loop rest
       (case map_of (fst out) k of
          None \<Rightarrow> out
        | Some step \<Rightarrow>
            (AList.update k
               (step\<lparr>step_inputs :=
                  prune_inputs out (map fst (step_inputs step)) (step_inputs step)\<rparr>) (fst out),
             snd out))"

definition cleanup :: "output_acc \<Rightarrow> output_acc" where
  "cleanup out = cleanup_loop (map fst (fst out)) out"

subsection \<open>graphToPrompt\<close>

text \<open>
  The result is \<open>None\<close> when the method does not return; otherwise the state as the
  callbacks have left it, with either the error thrown or the prompt. The workflow is
  serialized between the two loops.
\<close>

definition graphToPrompt :: "hooks \<Rightarrow> graph \<Rightarrow> (graph \<times> (js_error + prompt)) option" where
  "graphToPrompt h g =
     (let g1 = fold (before_outer h) (computeExecutionOrder h g) g
      in case serialize_outer h (computeExecutionOrder h g1) g1 ([], None) of
           None \<Rightarrow> None
         | Some (Inl e, g2) \<Rightarrow> Some (g2, Inl e)
         | Some (Inr out, g2) \<Rightarrow>
             Some (g2, Inr \<lparr>prompt_workflow = graph_serialize g1,
                            prompt_output = fst (cleanup out)\<rparr>))"

section \<open>queuePrompt\<close>

subsection \<open>Requests, replies, state\<close>

record queue_item =
  number :: int
  batchCount :: int

text \<open>
  The per-node errors of a response, as the code reads them: for each node id the class
  of the node and a list of reasons, each with a message and details.
\<close>

record error_reason =
  reason_message :: string
  reason_details :: string

record node_error =
  ne_class_type :: string
  ne_errors :: "error_reason list"

type_synonym node_errors = "(string \<times> node_error) list"

text \<open>
  What \<open>api.queuePrompt\<close> throws, by what the \<open>catch\<close> block and \<open>#formatPromptError\<close>
  read of it: \<open>null\<close> or \<open>undefined\<close>; a string; any other value, of which the code reads
  \<open>stack\<close> and \<open>message\<close> (when both are truthy, the text that \<open>toString()\<close> gives is kept)
  and \<open>response\<close>. Of a response the code reads \<open>error\<close>, with its \<open>message\<close> and
  \<open>details\<close>, and \<open>node_errors\<close>; either may be missing.
\<close>

record error_info =
  err_message :: string
  err_details :: "string option"

record response =
  resp_error :: "error_info option"
  resp_node_errors :: "node_errors option"

datatype prompt_error =
    ErrNull
  | ErrString string
  | ErrObject "string option" "response option"

text \<open>
  Modelled from the spec: the backend client is not among the sources. A submission
  either returns a result whose \<open>node_errors\<close> may be absent, or fails with an error.
\<close>

datatype api_reply =
    Accepted "node_errors option"
  | Rejected prompt_error

text \<open>
  The environment of a run: the hooks of \<open>graphToPrompt\<close>, and the backend's reply to a
  submission, given the number of submissions made before it, the priority and the
  prompt.
\<close>

record env =
  q_hooks :: hooks
  backend :: "nat \<Rightarrow> int \<Rightarrow> prompt \<Rightarrow> api_reply"

text \<open>
  The fields of the application that \<open>queuePrompt\<close> reads and writes, the graph, and a
  record of what was done: the submissions made (priority and prompt) and the texts
  shown in the dialog, oldest first. Canvas redraws, the queue display and the final
  \<open>promptQueued\<close> event are not recorded.
\<close>

record app =
  queueItems :: "queue_item list"
  processingQueue :: bool
  lastNodeErrors :: "node_errors option"
  app_graph :: graph
  submitted :: "(int \<times> prompt) list"
  dialogs :: "string list"

subsection \<open>Calls that arrive while a call is suspended\<close>

text \<open>
  JavaScript runs one task at a time; another call of \<open>queuePrompt\<close> can only run while
  the draining call is suspended at an \<open>await\<close>. A schedule lists, for each \<open>await\<close> in
  turn, the requests of the calls that arrive there; after the schedule's end no call
  arrives. An arriving call pushes its request and, finding \<open>#processingQueue\<close> set,
  returns. Were the flag clear, the arriving call would enter the drain loop itself while
  the first one is still inside it: the model stops with \<open>Overlap\<close> there.
\<close>

definition arrive :: "app \<Rightarrow> queue_item \<Rightarrow> app option" where
  "arrive s item =
     (let s1 = s\<lparr>queueItems := queueItems s @ [item]\<rparr>
      in if processingQueue s1 then Some s1 else None)"

fun arrivals :: "queue_item list \<Rightarrow> app \<Rightarrow> app option" where
  "arrivals [] s = Some s"
| "arrivals (item # rest) s =
     (case arrive s item of None \<Rightarrow> None | Some s1 \<Rightarrow> arrivals rest s1)"

definition await :: "app \<Rightarrow> queue_item list list \<Rightarrow> (app \<times> queue_item list list) option" where
  "await s sched =
     (case sched of
        [] \<Rightarrow> Some (s, [])
      | calls # later \<Rightarrow>
          (case arrivals calls s of None \<Rightarrow> None | Some s1 \<Rightarrow> Some (s1, later)))"

subsection \<open>One batch\<close>

text \<open>
  \<open>#formatPromptError\<close>. For an error with a response and without stack and message the
  text is built from \<open>error.response.error.message\<close>, the details when they are truthy,
  and the entries of \<open>error.response.node_errors\<close>; reading \<open>message\<close> of a missing
  \<open>error\<close>, and \<open>Object.entries\<close> of missing \<open>node_errors\<close>, throw.
\<close>

definition unknown_error :: string where
  "unknown_error = ''(unknown error)''"

fun reason_lines :: "error_reason list \<Rightarrow> string" where
  "reason_lines [] = []"
| "reason_lines (r # rs) =
     CHR 0x0A # ''    - '' @ reason_message r @ '': '' @ reason_details r @ reason_lines rs"

fun node_error_lines :: "node_errors \<Rightarrow> string" where
  "node_error_lines [] = []"
| "node_error_lines ((k, e) # rest) =
     CHR 0x0A # ne_class_type e @ '':'' @ reason_lines (ne_errors e) @ node_error_lines rest"

definition formatPromptError :: "prompt_error \<Rightarrow> js_error + string" where
  "formatPromptError err =
     (case err of
        ErrNull \<Rightarrow> Inr unknown_error
      | ErrString s \<Rightarrow> Inr s
      | ErrObject (Some shown) r \<Rightarrow> Inr shown
      | ErrObject None None \<Rightarrow> Inr unknown_error
      | ErrObject None (Some r) \<Rightarrow>
          (case resp_error r of
             None \<Rightarrow> Inl TypeError
           | Some e \<Rightarrow>
               (case resp_node_errors r of
                  None \<Rightarrow> Inl TypeError
                | Some errs \<Rightarrow>
                    Inr (err_message e @
                         (case err_details e of
                            None \<Rightarrow> []
                          | Some d \<Rightarrow> if d = [] then [] else '': '' @ d) @
                         node_error_lines errs))))"

text \<open>
  The \<open>catch\<close> block: the error is formatted and shown in the dialog; \<open>err.response\<close> is
  read, which throws for \<open>null\<close> and \<open>undefined\<close>; when there is a response its
  \<open>node_errors\<close> become \<open>lastNodeErrors\<close>; \<open>break\<close>. The result is how the block is left
  (\<open>Done\<close> for \<open>break\<close>) and the state then.
\<close>

datatype outcome = Done | Threw js_error | Overlap

definition on_rejected :: "prompt_error \<Rightarrow> app \<Rightarrow> outcome \<times> app" where
  "on_rejected err s =
     (case formatPromptError err of
        Inl e \<Rightarrow> (Threw e, s)
      | Inr shown \<Rightarrow>
          (case err of
             ErrNull \<Rightarrow> (Threw TypeError, s\<lparr>dialogs := dialogs s @ [shown]\<rparr>)
           | ErrString t \<Rightarrow> (Done, s\<lparr>dialogs := dialogs s @ [shown]\<rparr>)
           | ErrObject t None \<Rightarrow> (Done, s\<lparr>dialogs := dialogs s @ [shown]\<rparr>)
           | ErrObject t (Some r) \<Rightarrow>
               (Done, s\<lparr>dialogs := dialogs s @ [shown], lastNodeErrors := resp_node_errors r\<rparr>)))"

definition run_afterQueued :: "widget \<Rightarrow> widget" where
  "run_afterQueued w =
     (case afterQueued w of None \<Rightarrow> w | Some f \<Rightarrow> w\<lparr>w_value := f (w_value w)\<rparr>)"

text \<open>
  The loop over \<open>p.workflow.nodes\<close>: for each serialized node, the graph's node of that
  id, and \<open>afterQueued\<close> of each of its widgets.
\<close>

definition after_unit :: "prompt \<Rightarrow> graph \<Rightarrow> graph" where
  "after_unit p g =
     fold (\<lambda>i. update_node i (\<lambda>n. n\<lparr>widgets := map run_afterQueued (widgets n)\<rparr>))
       (prompt_workflow p) g"

definition on_accepted :: "node_errors option \<Rightarrow> prompt \<Rightarrow> app \<Rightarrow> app" where
  "on_accepted errs p s = s\<lparr>lastNodeErrors := errs, app_graph := after_unit p (app_graph s)\<rparr>"

text \<open>
  The loop \<open>for (let i = 0; i < batchCount; i++)\<close>, by the number of units still to run.
  Each unit has three \<open>await\<close>s: \<open>graphToPrompt\<close>, \<open>api.queuePrompt\<close> and
  \<open>ui.queue.update\<close>. An error of \<open>graphToPrompt\<close> is not caught inside the loop
  (\<open>Threw\<close>); a rejected submission is caught, and the \<open>catch\<close> block leaves the loop by
  \<open>break\<close> (\<open>Done\<close>) or by an error of its own.
\<close>

fun batch_loop ::
  "env \<Rightarrow> int \<Rightarrow> nat \<Rightarrow> app \<Rightarrow> queue_item list list \<Rightarrow>
   (outcome \<times> app \<times> queue_item list list) option" where
  "batch_loop env n 0 s sched = Some (Done, s, sched)"
| "batch_loop env n (Suc k) s sched =
     (case graphToPrompt (q_hooks env) (app_graph s) of
        None \<Rightarrow> None
      | Some (g1, r) \<Rightarrow>
          (case await (s\<lparr>app_graph := g1\<rparr>) sched of
             None \<Rightarrow> Some (Overlap, s\<lparr>app_graph := g1\<rparr>, sched)
           | Some (s1, sched1) \<Rightarrow>
               (case r of
                  Inl e \<Rightarrow> Some (Threw e, s1, sched1)
                | Inr p \<Rightarrow>
                    (case await (s1\<lparr>submitted := submitted s1 @ [(n, p)]\<rparr>) sched1 of
                       None \<Rightarrow> Some (Overlap, s1\<lparr>submitted := submitted s1 @ [(n, p)]\<rparr>, sched1)
                     | Some (s2, sched2) \<Rightarrow>
                         (case backend env (length (submitted s1)) n p of
                            Rejected err \<Rightarrow>
                              Some (fst (on_rejected err s2), snd (on_rejected err s2), sched2)
                          | Accepted errs \<Rightarrow>
                              (case await (on_accepted errs p s2) sched2 of
                                 None \<Rightarrow> Some (Overlap, on_accepted errs p s2, sched2)
                               | Some (s3, sched3) \<Rightarrow> batch_loop env n k s3 sched3))))))"

subsection \<open>The drain loop and queuePrompt\<close>

text \<open>
  The loop \<open>while (this.#queueItems.length)\<close>: \<open>pop\<close> takes the last item of the list.
\<close>

function drain ::
  "env \<Rightarrow> app \<Rightarrow> queue_item list list \<Rightarrow> (outcome \<times> app \<times> queue_item list list) option" where
  "drain env s sched =
     (if queueItems s = [] then Some (Done, s, sched)
      else
        (case batch_loop env (number (last (queueItems s)))
                (nat (batchCount (last (queueItems s))))
                (s\<lparr>queueItems := butlast (queueItems s)\<rparr>) sched of
           None \<Rightarrow> None
         | Some (Done, s1, sched1) \<Rightarrow> drain env s1 sched1
         | Some (Threw e, s1, sched1) \<Rightarrow> Some (Threw e, s1, sched1)
         | Some (Overlap, s1, sched1) \<Rightarrow> Some (Overlap, s1, sched1)))"
  by pat_completeness auto

text \<open>
  Every \<open>await\<close> moves requests from the schedule to the pending list, and every turn
  of the drain loop takes one request off the list: the loop ends.
\<close>

lemma arrivals_queue:
  "arrivals calls s = Some s1 \<Longrightarrow> queueItems s1 = queueItems s @ calls"
  by (induction calls arbitrary: s) (auto simp: arrive_def Let_def split: if_splits)

lemma await_pending:
  "await s sched = Some (s1, sched1) \<Longrightarrow>
     length (queueItems s1) + length (concat sched1) = length (queueItems s) + length (concat sched)"
  by (auto simp: await_def split: list.splits option.splits dest: arrivals_queue)

lemma on_rejected_keeps:
  "fst (on_rejected err s) \<noteq> Overlap"
  "queueItems (snd (on_rejected err s)) = queueItems s"
  "processingQueue (snd (on_rejected err s)) = processingQueue s"
  "app_graph (snd (on_rejected err s)) = app_graph s"
  "submitted (snd (on_rejected err s)) = submitted s"
  by (simp_all add: on_rejected_def split: sum.splits prompt_error.splits option.splits)

lemma batch_loop_pending:
  "batch_loop env n k s sched = Some (oc, s1, sched1) \<Longrightarrow> oc \<noteq> Overlap \<Longrightarrow>
     length (queueItems s1) + length (concat sched1) = length (queueItems s) + length (concat sched)"
proof (induction k arbitrary: s sched)
  case 0
  then show ?case by simp
next
  case (Suc k)
  from Suc.prems obtain g1 r where c: "graphToPrompt (q_hooks env) (app_graph s) = Some (g1, r)"
    by (auto split: option.splits)
  from Suc.prems c obtain sa scha where a1: "await (s\<lparr>app_graph := g1\<rparr>) sched = Some (sa, scha)"
    by (auto split: option.splits)
  have p1: "length (queueItems sa) + length (concat scha) = length (queueItems s) + length (concat sched)"
    using await_pending [OF a1] by simp
  show ?case
  proof (cases r)
    case (Inl e)
    with Suc.prems c a1 p1 show ?thesis by auto
  next
    case (Inr p)
    from Suc.prems c a1 Inr obtain sb schb where
      a2: "await (sa\<lparr>submitted := submitted sa @ [(n, p)]\<rparr>) scha = Some (sb, schb)"
      by (auto split: option.splits)
    have p2: "length (queueItems sb) + length (concat schb) = length (queueItems s) + length (concat sched)"
      using await_pending [OF a2] p1 by simp
    show ?thesis
    proof (cases "backend env (length (submitted sa)) n p")
      case (Rejected err)
      with Suc.prems c a1 Inr a2 p2 show ?thesis by (auto simp: on_rejected_keeps)
    next
      case (Accepted errs)
      from Suc.prems c a1 Inr a2 Accepted obtain sc schc where
        a3: "await (on_accepted errs p sb) schb = Some (sc, schc)"
        by (auto split: option.splits)
      have p3: "length (queueItems sc) + length (concat schc) = length (queueItems s) + length (concat sched)"
        using await_pending [OF a3] p2 by (simp add: on_accepted_def)
      from Suc.prems c a1 Inr a2 Accepted a3 have "batch_loop env n k sc schc = Some (oc, s1, sched1)"
        by simp
      from Suc.IH [OF this Suc.prems(2)] p3 show ?thesis by simp
    qed
  qed
qed

termination drain
proof (relation "measure (\<lambda>(env, s, sched). length (queueItems s) + length (concat sched))")
  show "wf (measure (\<lambda>(env, s, sched). length (queueItems s) + length (concat sched)))"
    by simp
next
  fix env :: env and s :: app and sched :: "queue_item list list" and x2 x1 x2a x1a x2b
  assume ne: "queueItems s \<noteq> []"
    and b: "batch_loop env (number (last (queueItems s))) (nat (batchCount (last (queueItems s))))
              (s\<lparr>queueItems := butlast (queueItems s)\<rparr>) sched = Some x2"
    and x: "(x1, x2a) = x2" "(x1a, x2b) = x2a" "x1 = Done"
  from b x have "batch_loop env (number (last (queueItems s))) (nat (batchCount (last (queueItems s))))
              (s\<lparr>queueItems := butlast (queueItems s)\<rparr>) sched = Some (Done, x1a, x2b)"
    by simp
  from batch_loop_pending [OF this] ne
  show "((env, x1a, x2b), env, s, sched)
          \<in> measure (\<lambda>(env, s, sched). length (queueItems s) + length (concat sched))"
    by (cases "queueItems s" rule: rev_cases) auto
qed

text \<open>
  \<open>queuePrompt(number, batchCount)\<close>: push the request; return when a drain is in
  progress; otherwise set the flag, clear \<open>lastNodeErrors\<close>, drain, and clear the flag in
  the \<open>finally\<close> block, whether the loop ended or an error came out of it.
\<close>

definition queuePrompt ::
  "env \<Rightarrow> int \<Rightarrow> int \<Rightarrow> app \<Rightarrow> queue_item list list \<Rightarrow>
   (outcome \<times> app \<times> queue_item list list) option" where
  "queuePrompt env n b s sched =
     (let s1 = s\<lparr>queueItems := queueItems s @ [\<lparr>number = n, batchCount = b\<rparr>]\<rparr>
      in if processingQueue s1 then Some (Done, s1, sched)
         else
           (case drain env (s1\<lparr>processingQueue := True, lastNodeErrors := None\<rparr>) sched of
              None \<Rightarrow> None
            | Some (Overlap, s2, sched2) \<Rightarrow> Some (Overlap, s2, sched2)
            | Some (oc, s2, sched2) \<Rightarrow> Some (oc, s2\<lparr>processingQueue := False\<rparr>, sched2)))"

section \<open>Notions used in the statements and proofs\<close>

text \<open>
  An output whose own keys are distinct and whose steps have inputs with distinct keys,
  as every object built by property assignment is.
\<close>

definition wf_output :: "(string \<times> workflow_step) list \<Rightarrow> bool" where
  "wf_output own =
     (distinct (map fst own) \<and> (\<forall>(k, st) \<in> set own. distinct (map fst (step_inputs st))))"

text \<open>One round of the loop \<open>for (const o in output)\<close> of the cleanup pass.\<close>

definition cleanup_step :: "string \<Rightarrow> output_acc \<Rightarrow> output_acc" where
  "cleanup_step k out =
     (case map_of (fst out) k of
        None \<Rightarrow> out
      | Some step \<Rightarrow>
          (AList.update k
             (step\<lparr>step_inputs :=
                prune_inputs out (map fst (step_inputs step)) (step_inputs step)\<rparr>) (fst out),
           snd out))"

text \<open>A producer that the resolution loop skips: bypassed (mode 4) or virtual.\<close>

definition bypassable :: "node \<Rightarrow> bool" where
  "bypassable p = (mode p = 4 \<or> isVirtualNode p)"

text \<open>
  A rank on the nodes that decreases from every skipped node of the graph to each node
  that feeds one of its inputs: the chains of skipped producers do not run in a cycle.
\<close>

definition ranked :: "graph \<Rightarrow> (node \<Rightarrow> nat) \<Rightarrow> bool" where
  "ranked g rank =
     list_all
       (\<lambda>p. bypassable p \<longrightarrow>
          list_all
            (\<lambda>k. case getInputNode g p k of None \<Rightarrow> True | Some q \<Rightarrow> rank q < rank p)
            [0..<length (inputs p)])
       (nodes g)"

text \<open>
  Following the spec's words, the input through which a bypassed node is skipped: an
  input whose declared type is the type of the slot being resolved, "preferring the
  slot at the same index as the link being bypassed", else the first type match in
  declaration order.
\<close>

definition pick_input :: "node \<Rightarrow> string \<Rightarrow> nat \<Rightarrow> nat option" where
  "pick_input p ty j =
     (if j < length (inputs p) \<and> slot_type (inputs p ! j) = ty then Some j
      else find (\<lambda>k. slot_type (inputs p ! k) = ty) [0..<length (inputs p)])"

text \<open>
  Following the spec's words, one hop of the resolution, from a producer \<open>p\<close> reached by
  the link \<open>l\<close> to the producer \<open>q\<close> and link \<open>l'\<close> upstream of it. A virtual node pairs
  the output that \<open>l\<close> leaves with its input of the same index; a bypassed node is skipped
  through the input that \<open>pick_input\<close> chooses. In both cases \<open>l'\<close> is the link that
  enters that input and \<open>q\<close> is the node with the origin id of \<open>l'\<close>.
\<close>

inductive hop :: "graph \<Rightarrow> string \<Rightarrow> node \<times> llink \<Rightarrow> node \<times> llink \<Rightarrow> bool"
  for g :: graph and ty :: string where
  hop_virtual:
    "isVirtualNode p \<Longrightarrow> getInputLink g p (origin_slot l) = Some l' \<Longrightarrow>
     target_slot l' = origin_slot l \<Longrightarrow> getNodeById g (origin_id l') = Some q \<Longrightarrow>
     hop g ty (p, l) (q, l')"
| hop_bypass:
    "\<not> isVirtualNode p \<Longrightarrow> mode p = 4 \<Longrightarrow> pick_input p ty (origin_slot l) = Some k \<Longrightarrow>
     getInputLink g p k = Some l' \<Longrightarrow> getNodeById g (origin_id l') = Some q \<Longrightarrow>
     hop g ty (p, l) (q, l')"

text \<open>The requests that arrive at the next \<open>await\<close> of a schedule.\<close>

definition arriving :: "queue_item list list \<Rightarrow> queue_item list" where
  "arriving sched = (case sched of [] \<Rightarrow> [] | calls # later \<Rightarrow> calls)"


text \<open>
  What the claims about the queue suppose of a run: on every graph of a set that the
  \<open>afterQueued\<close> callbacks do not leave, compilation returns a prompt; the backend
  accepts every submission.
\<close>

definition compile_ok :: "env \<Rightarrow> graph set \<Rightarrow> bool" where
  "compile_ok env G =
     (\<forall>g\<in>G. \<exists>g1 p. graphToPrompt (q_hooks env) g = Some (g1, Inr p) \<and> after_unit p g1 \<in> G)"

definition accepts :: "env \<Rightarrow> bool" where
  "accepts env = (\<forall>i n p. \<exists>errs. backend env i n p = Accepted errs)"

text \<open>
  The units of work that a list of requests asks for: the priority of each request, as
  many times as its batch count.
\<close>

definition units_of :: "queue_item list \<Rightarrow> int multiset" where
  "units_of rs = sum_list (map (\<lambda>r. replicate_mset (nat (batchCount r)) (number r)) rs)"

text \<open>
  What the claim about compiling twice supposes of the callbacks. A \<open>beforeQueued\<close>
  callback is settled when it leaves a value that it has produced as it is; the
  callbacks of the second loop are read-only when they leave the state as it is.
\<close>

definition settled :: "graph \<Rightarrow> bool" where
  "settled g =
     (\<forall>n \<in> set (nodes g). \<forall>w \<in> set (widgets n).
        run_beforeQueued (run_beforeQueued w) = run_beforeQueued w)"

definition read_only :: "hooks \<Rightarrow> bool" where
  "read_only h =
     ((\<forall>n i f g. serializeValue h n i = Some f \<longrightarrow> snd (f g) = g) \<and>
      (\<forall>p f g l. updateLink h p = Some f \<longrightarrow> snd (f g l) = g))"

text \<open>What the first loop does to an outer node: \<open>beforeQueued\<close> of each widget.\<close>

definition queue_widgets :: "node \<Rightarrow> node" where
  "queue_widgets n = n\<lparr>widgets := map run_beforeQueued (widgets n)\<rparr>"
section \<open>Example inputs\<close>

text \<open>
  Hooks of a graph without group nodes: the execution order is the order of the node
  list, and no node or widget has \<open>getInnerNodes\<close>, \<open>applyToGraph\<close>, \<open>serializeValue\<close> or
  \<open>updateLink\<close>.
\<close>

definition plain_hooks :: hooks where
  "plain_hooks =
     \<lparr>computeExecutionOrder = (\<lambda>g. map node_id (nodes g)),
      getInnerNodes = (\<lambda>g n. None),
      applyToGraph = (\<lambda>n. None),
      serializeValue = (\<lambda>n i. None),
      updateLink = (\<lambda>n. None),
      devMode = False\<rparr>"

definition plain_node :: "nat \<Rightarrow> string \<Rightarrow> slot list \<Rightarrow> widget list \<Rightarrow> node" where
  "plain_node i c ins ws =
     \<lparr>node_id = NumId (int i), mode = 0, isVirtualNode = False, inputs = ins, widgets = ws,
      comfyClass = c, title = c\<rparr>"

definition plain_widget :: "string \<Rightarrow> jsval \<Rightarrow> widget" where
  "plain_widget n v =
     \<lparr>w_name = n, w_value = v, options = None, beforeQueued = None, afterQueued = None\<rparr>"

definition mk_link :: "nat \<Rightarrow> nat \<Rightarrow> nat \<Rightarrow> nat \<Rightarrow> llink" where
  "mk_link oi os ti ts =
     \<lparr>origin_id = NumId (int oi), origin_slot = os, target_id = NumId (int ti), target_slot = ts\<rparr>"

definition mk_slot :: "string \<Rightarrow> string \<Rightarrow> nat option \<Rightarrow> slot" where
  "mk_slot n t l = \<lparr>slot_name = n, slot_type = t, slot_link = l\<rparr>"

text \<open>
  Node 1 (LoadImage) feeds the virtual node 2 (a reroute), which feeds input 1 of the
  bypassed node 3, which feeds node 4. The bypassed node 5 has no input of type IMAGE and
  feeds node 6. The virtual node 7 has nothing connected and feeds the input \<open>image\<close> of
  node 8, which also has a widget of that name. The bypassed node 9 has an unconnected
  input of type IMAGE and feeds node 10.
\<close>

definition bypass_graph :: graph where
  "bypass_graph =
     \<lparr>nodes =
        [plain_node 1 ''LoadImage'' [] [plain_widget ''image'' (JStr ''a.png'')],
         (plain_node 2 ''Reroute'' [mk_slot ''in'' ''*'' (Some 10)] [])
            \<lparr>isVirtualNode := True\<rparr>,
         (plain_node 3 ''ImageScale''
            [mk_slot ''mask'' ''MASK'' None, mk_slot ''image'' ''IMAGE'' (Some 11)] [])
            \<lparr>mode := 4\<rparr>,
         plain_node 4 ''PreviewImage'' [mk_slot ''images'' ''IMAGE'' (Some 12)] [],
         (plain_node 5 ''VAEDecode'' [mk_slot ''samples'' ''LATENT'' None] [])
            \<lparr>mode := 4\<rparr>,
         plain_node 6 ''SaveImage'' [mk_slot ''images'' ''IMAGE'' (Some 13)]
            [plain_widget ''filename_prefix'' (JStr ''out'')],
         (plain_node 7 ''Reroute'' [mk_slot ''in'' ''*'' None] [])
            \<lparr>isVirtualNode := True\<rparr>,
         plain_node 8 ''ImageInvert'' [mk_slot ''image'' ''IMAGE'' (Some 14)]
            [plain_widget ''image'' (JStr ''b.png'')],
         (plain_node 9 ''ImageBlur'' [mk_slot ''image'' ''IMAGE'' None] [])
            \<lparr>mode := 4\<rparr>,
         plain_node 10 ''ImageSharpen'' [mk_slot ''image'' ''IMAGE'' (Some 15)] []],
      links =
        [(10, mk_link 1 0 2 0), (11, mk_link 2 0 3 1), (12, mk_link 3 0 4 0),
         (13, mk_link 5 0 6 0), (14, mk_link 7 0 8 0), (15, mk_link 9 0 10 0)],
      outside = JNull\<rparr>"

text \<open>
  A document with one node of each legacy type and one other node; only
  \<open>ControlNetLoader\<close> is a registered type, and no extension changes the document.
\<close>

definition legacy_env :: "graph_document load_env" where
  "legacy_env =
     \<lparr>defaultGraph = \<lparr>doc_nodes = []\<rparr>,
      beforeConfigureGraph = (\<lambda>d m. (d, m)),
      registered_node_types = (\<lambda>t. t = ''ControlNetLoader''),
      configure = Inr\<rparr>"

definition legacy_document :: graph_document where
  "legacy_document =
     \<lparr>doc_nodes =
        [\<lparr>sn_id = 1, sn_type = ''T2IAdapterLoader''\<rparr>,
         \<lparr>sn_id = 2, sn_type = ''ConditioningAverage ''\<rparr>,
         \<lparr>sn_id = 3, sn_type = ''SDV_img2vid_Conditioning''\<rparr>,
         \<lparr>sn_id = 4, sn_type = ''KSampler''\<rparr>]\<rparr>"

text \<open>
  Two reroutes (virtual nodes 2 and 3) that feed each other; node 1 takes its input from
  node 2.
\<close>

definition cyclic_graph :: graph where
  "cyclic_graph =
     \<lparr>nodes =
        [(plain_node 2 ''Reroute'' [mk_slot ''in'' ''*'' (Some 22)] [])\<lparr>isVirtualNode := True\<rparr>,
         (plain_node 3 ''Reroute'' [mk_slot ''in'' ''*'' (Some 23)] [])\<lparr>isVirtualNode := True\<rparr>,
         plain_node 1 ''PreviewImage'' [mk_slot ''images'' ''IMAGE'' (Some 21)] []],
      links = [(21, mk_link 2 0 1 0), (22, mk_link 3 0 2 0), (23, mk_link 2 0 3 0)],
      outside = JNull\<rparr>"

text \<open>The states of the resolution loop on \<open>cyclic_graph\<close> that lie on the cycle.\<close>

definition cyc_state :: "graph \<Rightarrow> node \<Rightarrow> llink option \<Rightarrow> bool" where
  "cyc_state g parent link =
     (g = cyclic_graph \<and> parent \<in> set (nodes cyclic_graph) \<and> isVirtualNode parent \<and>
      (\<exists>l. link = Some l \<and> origin_slot l = 0))"

text \<open>The prompt that \<open>graphToPrompt\<close> returns for \<open>bypass_graph\<close>.\<close>

definition bypass_prompt :: prompt where
  "bypass_prompt =
     \<lparr>prompt_workflow = map NumId [1, 2, 3, 4, 5, 6, 7, 8, 9, 10],
      prompt_output =
        [(''1'', \<lparr>class_type = ''LoadImage'', step_inputs = [(''image'', JStr ''a.png'')],
                  meta_title = None\<rparr>),
         (''4'', \<lparr>class_type = ''PreviewImage'',
                  step_inputs = [(''images'', JArr [JStr ''1'', JNum 0])], meta_title = None\<rparr>),
         (''6'', \<lparr>class_type = ''SaveImage'', step_inputs = [(''filename_prefix'', JStr ''out'')],
                  meta_title = None\<rparr>),
         (''8'', \<lparr>class_type = ''ImageInvert'', step_inputs = [(''image'', JStr ''b.png'')],
                  meta_title = None\<rparr>),
         (''10'', \<lparr>class_type = ''ImageSharpen'', step_inputs = [], meta_title = None\<rparr>)]\<rparr>"

text \<open>
  A sampler whose \<open>seed\<close> widget has a callback that adds one to a number; the callback is
  installed as \<open>beforeQueued\<close>, as \<open>afterQueued\<close>, or not at all.
\<close>

fun bump :: "jsval \<Rightarrow> jsval" where
  "bump (JNum i) = JNum (i + 1)"
| "bump v = v"

definition seed_graph ::
  "(jsval \<Rightarrow> jsval) option \<Rightarrow> (jsval \<Rightarrow> jsval) option \<Rightarrow> int \<Rightarrow> graph" where
  "seed_graph before after v =
     \<lparr>nodes =
        [plain_node 1 ''KSampler'' []
           [(plain_widget ''seed'' (JNum v))\<lparr>beforeQueued := before, afterQueued := after\<rparr>]],
      links = [],
      outside = JNull\<rparr>"

definition seed_prompt :: "int \<Rightarrow> prompt" where
  "seed_prompt v =
     \<lparr>prompt_workflow = [NumId 1],
      prompt_output =
        [(''1'', \<lparr>class_type = ''KSampler'', step_inputs = [(''seed'', JNum v)],
                  meta_title = None\<rparr>)]\<rparr>"

text \<open>
  The application at rest with a given graph, a backend that accepts every submission,
  and backends that reject the submission of a given index with an error that carries
  node errors.
\<close>

definition idle :: "graph \<Rightarrow> app" where
  "idle g =
     \<lparr>queueItems = [], processingQueue = False, lastNodeErrors = None, app_graph = g,
      submitted = [], dialogs = []\<rparr>"

definition accepting :: env where
  "accepting = \<lparr>q_hooks = plain_hooks, backend = (\<lambda>i n p. Accepted None)\<rparr>"

definition seed_errors :: node_errors where
  "seed_errors =
     [(''1'', \<lparr>ne_class_type = ''KSampler'',
               ne_errors = [\<lparr>reason_message = ''Value too big'', reason_details = ''seed''\<rparr>]\<rparr>)]"

definition bad_seed :: prompt_error where
  "bad_seed =
     ErrObject None
       (Some \<lparr>resp_error = Some \<lparr>err_message = ''Prompt failed'', err_details = None\<rparr>,
              resp_node_errors = Some seed_errors\<rparr>)"

definition bad_seed_shown :: string where
  "bad_seed_shown =
     ''Prompt failed'' @ [CHR 0x0A] @ ''KSampler:'' @ [CHR 0x0A] @ ''    - Value too big: seed''"

definition rejecting :: "nat \<Rightarrow> env" where
  "rejecting j =
     \<lparr>q_hooks = plain_hooks,
      backend = (\<lambda>i n p. if i = j then Rejected bad_seed else Accepted None)\<rparr>"

definition request :: "int \<Rightarrow> int \<Rightarrow> queue_item" where
  "request n b = \<lparr>number = n, batchCount = b\<rparr>"

text \<open>
  Node 1 takes its input from the bypassed node 2, whose input of the same type has a
  link from node 99, which is not in the graph.
\<close>

definition orphan_graph :: graph where
  "orphan_graph =
     \<lparr>nodes =
        [(plain_node 2 ''ImageScale'' [mk_slot ''image'' ''IMAGE'' (Some 32)] [])\<lparr>mode := 4\<rparr>,
         plain_node 1 ''PreviewImage'' [mk_slot ''images'' ''IMAGE'' (Some 31)] []],
      links = [(31, mk_link 2 0 1 0), (32, mk_link 99 0 2 0)],
      outside = JNull\<rparr>"

text \<open>
  A drain in progress on the sampler graph whose seed advances after each submission,
  with one request pending.
\<close>

definition busy_state :: app where
  "busy_state =
     (idle (seed_graph None (Some bump) 5))\<lparr>processingQueue := True, queueItems := [request 7 1]\<rparr>"

text \<open>
  A graph of the kind that \<open>loadApiJson\<close> builds, with a string as node id: the node
  \<open>constructor\<close> is set to "never" (mode 2) and feeds node 1. The second definition is
  the prompt that \<open>graphToPrompt\<close> returns for it.
\<close>

definition proto_graph :: graph where
  "proto_graph =
     \<lparr>nodes =
        [(plain_node 0 ''LoadImage'' [] [plain_widget ''image'' (JStr ''a.png'')])
            \<lparr>node_id := StrId ''constructor'', mode := 2\<rparr>,
         plain_node 1 ''PreviewImage'' [mk_slot ''images'' ''IMAGE'' (Some 40)] []],
      links =
        [(40, \<lparr>origin_id = StrId ''constructor'', origin_slot = 0, target_id = NumId 1,
                target_slot = 0\<rparr>)],
      outside = JNull\<rparr>"

definition proto_prompt :: prompt where
  "proto_prompt =
     \<lparr>prompt_workflow = [StrId ''constructor'', NumId 1],
      prompt_output =
        [(''1'', \<lparr>class_type = ''PreviewImage'',
                  step_inputs = [(''images'', JArr [JStr ''constructor'', JNum 0])],
                  meta_title = None\<rparr>)]\<rparr>"

text \<open>
  A callback that limits a number to 100, and hooks in which node 1 is the outer face of
  a group: its \<open>updateLink\<close> rewrites a link to name the inner node \<open>1:0\<close> and its output 2.
\<close>

fun clamp :: "jsval \<Rightarrow> jsval" where
  "clamp (JNum i) = JNum (min i 100)"
| "clamp v = v"

definition group_hooks :: hooks where
  "group_hooks =
     plain_hooks
       \<lparr>updateLink :=
          (\<lambda>p. if node_id p = NumId 1
                then Some (\<lambda>g l. (Inr (Some (l\<lparr>origin_id := StrId ''1:0'', origin_slot := 2\<rparr>)), g))
                else None)\<rparr>"

text \<open>The number of a node's id as its rank.\<close>

definition id_rank :: "node \<Rightarrow> nat" where
  "id_rank n = (case node_id n of NumId i \<Rightarrow> nat i | StrId s \<Rightarrow> 0)"

text \<open>
  A rejection whose response carries node errors and no \<open>error\<close>, and a backend that
  rejects the first submission with it.
\<close>

definition bare_response :: prompt_error where
  "bare_response = ErrObject None (Some \<lparr>resp_error = None, resp_node_errors = Some seed_errors\<rparr>)"

definition garbling :: env where
  "garbling =
     \<lparr>q_hooks = plain_hooks,
      backend = (\<lambda>i n p. if i = 0 then Rejected bare_response else Accepted None)\<rparr>"

text \<open>
  Hooks in which the widget of node 1 has a \<open>serializeValue\<close> that returns a counter kept
  outside the graph and advances it; and hooks in which the virtual node 2 has an
  \<open>applyToGraph\<close> that adds one to the values of the widgets of node 1, with a graph that
  has such a node.
\<close>

definition counting_hooks :: hooks where
  "counting_hooks =
     plain_hooks
       \<lparr>serializeValue :=
          (\<lambda>n i. if node_id n = NumId 1 \<and> i = 0
                  then Some (\<lambda>g. (Inr (outside g), g\<lparr>outside := bump (outside g)\<rparr>))
                  else None)\<rparr>"

definition applying_hooks :: hooks where
  "applying_hooks =
     plain_hooks
       \<lparr>applyToGraph :=
          (\<lambda>n. if node_id n = NumId 2
                then Some (update_node (NumId 1)
                             (\<lambda>m. m\<lparr>widgets := map (\<lambda>w. w\<lparr>w_value := bump (w_value w)\<rparr>) (widgets m)\<rparr>))
                else None)\<rparr>"

definition primitive_graph :: "int \<Rightarrow> graph" where
  "primitive_graph v =
     \<lparr>nodes =
        [(plain_node 2 ''PrimitiveNode'' [] [])\<lparr>isVirtualNode := True\<rparr>,
         plain_node 1 ''KSampler'' [] [plain_widget ''seed'' (JNum v)]],
      links = [],
      outside = JNull\<rparr>"

definition primitive_prompt :: "int \<Rightarrow> prompt" where
  "primitive_prompt v =
     \<lparr>prompt_workflow = [NumId 2, NumId 1],
      prompt_output =
        [(''1'', \<lparr>class_type = ''KSampler'', step_inputs = [(''seed'', JNum v)],
                  meta_title = None\<rparr>)]\<rparr>"

text \<open>
  Two nodes without links, node 10 before node 9 in the node list and in the execution
  order, and the prompt for them: in the output the key 9 comes first.
\<close>

definition descending_graph :: graph where
  "descending_graph =
     \<lparr>nodes =
        [plain_node 10 ''LoadImage'' [] [plain_widget ''image'' (JStr ''a.png'')],
         plain_node 9 ''LoadImage'' [] [plain_widget ''image'' (JStr ''b.png'')]],
      links = [],
      outside = JNull\<rparr>"

definition descending_prompt :: prompt where
  "descending_prompt =
     \<lparr>prompt_workflow = [NumId 10, NumId 9],
      prompt_output =
        [(''9'', \<lparr>class_type = ''LoadImage'', step_inputs = [(''image'', JStr ''b.png'')],
                  meta_title = None\<rparr>),
         (''10'', \<lparr>class_type = ''LoadImage'', step_inputs = [(''image'', JStr ''a.png'')],
                   meta_title = None\<rparr>)]\<rparr>"

section \<open>Theorems about registerExtension and loadGraphData\<close>

subsection \<open>registerExtension\<close>

lemma find_same_name:
  "(find (\<lambda>ext. ext_name ext = n) exts = None) = (\<forall>x \<in> set exts. ext_name x \<noteq> n)"
  by (induction exts) auto

text \<open>
  C10 (as amended). \<open>registerExtension\<close> throws when the extension has no name or an empty
  name, and throws when an extension of the same name is already registered; in both
  cases the list of registered extensions is unchanged. In every other case the
  extension is appended to the list.
\<close>

theorem registerExtension_cases:
  "(falsy_name (ext_name e) \<longrightarrow>
      registerExtension e exts = (Some ExtensionNameMissing, exts)) \<and>
   (ext_name e = Some n \<and> n \<noteq> [] \<and> (\<exists>x \<in> set exts. ext_name x = Some n) \<longrightarrow>
      registerExtension e exts = (Some (ExtensionAlreadyRegistered n), exts)) \<and>
   (ext_name e = Some n \<and> n \<noteq> [] \<and> (\<forall>x \<in> set exts. ext_name x \<noteq> Some n) \<longrightarrow>
      registerExtension e exts = (None, exts @ [e]))"
  by (simp add: registerExtension_def falsy_name_def find_same_name)

theorem registerExtension_cases_witness:
  "registerExtension \<lparr>ext_name = None\<rparr> [\<lparr>ext_name = Some ''a''\<rparr>]
     = (Some ExtensionNameMissing, [\<lparr>ext_name = Some ''a''\<rparr>]) \<and>
   registerExtension \<lparr>ext_name = Some ''a''\<rparr> [\<lparr>ext_name = Some ''a''\<rparr>]
     = (Some (ExtensionAlreadyRegistered ''a''), [\<lparr>ext_name = Some ''a''\<rparr>]) \<and>
   registerExtension \<lparr>ext_name = Some ''b''\<rparr> [\<lparr>ext_name = Some ''a''\<rparr>]
     = (None, [\<lparr>ext_name = Some ''a''\<rparr>, \<lparr>ext_name = Some ''b''\<rparr>])"
  using registerExtension_cases [of "\<lparr>ext_name = None\<rparr>" "[\<lparr>ext_name = Some ''a''\<rparr>]" "''a''"]
        registerExtension_cases [of "\<lparr>ext_name = Some ''a''\<rparr>" "[\<lparr>ext_name = Some ''a''\<rparr>]" "''a''"]
        registerExtension_cases [of "\<lparr>ext_name = Some ''b''\<rparr>" "[\<lparr>ext_name = Some ''a''\<rparr>]" "''b''"]
  by (simp add: falsy_name_def)

text \<open>
  C10 as stated fails for an extension whose name is the empty string: it has a name
  property, no extension of that name is registered, and yet the call throws and
  nothing is appended.
\<close>

theorem registerExtension_empty_name_counterexample:
  "ext_name \<lparr>ext_name = Some ''''\<rparr> \<noteq> None \<and>
   registerExtension \<lparr>ext_name = Some ''''\<rparr> [] = (Some ExtensionNameMissing, [])"
  by (simp add: registerExtension_def falsy_name_def)

subsection \<open>loadGraphData\<close>

lemma sanitize_targets:
  "sanitizeNodeName ''ControlNetLoader'' = ''ControlNetLoader''"
  "sanitizeNodeName ''ConditioningAverage'' = ''ConditioningAverage''"
  "sanitizeNodeName ''SVD_img2vid_Conditioning'' = ''SVD_img2vid_Conditioning''"
  by (simp_all add: sanitizeNodeName_def entityMap_def)

lemma patch_node_legacy:
  "sn_type n = ''T2IAdapterLoader'' \<Longrightarrow> sn_type (fst (patch_node reg n)) = ''ControlNetLoader''"
  "sn_type n = ''ConditioningAverage '' \<Longrightarrow> sn_type (fst (patch_node reg n)) = ''ConditioningAverage''"
  "sn_type n = ''SDV_img2vid_Conditioning'' \<Longrightarrow>
     sn_type (fst (patch_node reg n)) = ''SVD_img2vid_Conditioning''"
  by (simp_all add: patch_node_def patch_type_def sanitize_targets Let_def)

lemma patch_nodes_map:
  "fst (patch_nodes reg ns missing) = map (\<lambda>n. fst (patch_node reg n)) ns"
proof (induction ns arbitrary: missing)
  case Nil
  show ?case by simp
next
  case (Cons n ns)
  show ?case
    using Cons [of "missing @ snd (patch_node reg n)"]
    by (auto split: prod.splits)
qed

lemma document_configured_nodes:
  "doc_nodes (fst (document_configured env gd)) =
     map (\<lambda>n. fst (patch_node (registered_node_types env) n))
       (doc_nodes (document_before_patch env gd))"
proof -
  obtain d m where bc:
    "beforeConfigureGraph env (case gd of None \<Rightarrow> defaultGraph env | Some d \<Rightarrow> d) [] = (d, m)"
    by (cases "beforeConfigureGraph env (case gd of None \<Rightarrow> defaultGraph env | Some d \<Rightarrow> d) []")
  obtain ns ms where pn: "patch_nodes (registered_node_types env) (doc_nodes d) m = (ns, ms)"
    by (cases "patch_nodes (registered_node_types env) (doc_nodes d) m")
  have "ns = map (\<lambda>n. fst (patch_node (registered_node_types env) n)) (doc_nodes d)"
    using patch_nodes_map [of "registered_node_types env" "doc_nodes d" m] pn by simp
  then show ?thesis
    by (simp add: document_configured_def document_before_patch_def bc pn)
qed

text \<open>
  C9. \<open>loadGraphData\<close> hands to \<open>graph.configure\<close> the document whose nodes went through
  the loop once: it has as many nodes as the document the extensions returned, and a
  node that had type \<open>"T2IAdapterLoader"\<close>, \<open>"ConditioningAverage "\<close> (trailing space) or
  \<open>"SDV_img2vid_Conditioning"\<close> has type \<open>"ControlNetLoader"\<close>, \<open>"ConditioningAverage"\<close> or
  \<open>"SVD_img2vid_Conditioning"\<close> there, whether or not that type is registered.
\<close>

theorem loadGraphData_normalizes:
  "fst (loadGraphData env gd) = configure env (fst (document_configured env gd)) \<and>
   length (doc_nodes (fst (document_configured env gd)))
     = length (doc_nodes (document_before_patch env gd)) \<and>
   (\<forall>i < length (doc_nodes (document_before_patch env gd)).
      (sn_type (doc_nodes (document_before_patch env gd) ! i) = ''T2IAdapterLoader'' \<longrightarrow>
         sn_type (doc_nodes (fst (document_configured env gd)) ! i) = ''ControlNetLoader'') \<and>
      (sn_type (doc_nodes (document_before_patch env gd) ! i) = ''ConditioningAverage '' \<longrightarrow>
         sn_type (doc_nodes (fst (document_configured env gd)) ! i) = ''ConditioningAverage'') \<and>
      (sn_type (doc_nodes (document_before_patch env gd) ! i) = ''SDV_img2vid_Conditioning'' \<longrightarrow>
         sn_type (doc_nodes (fst (document_configured env gd)) ! i) = ''SVD_img2vid_Conditioning''))"
proof -
  have "fst (loadGraphData env gd) = configure env (fst (document_configured env gd))"
    by (simp add: loadGraphData_def split: prod.splits)
  then show ?thesis
    by (simp add: document_configured_nodes patch_node_legacy)
qed


theorem loadGraphData_normalizes_witness:
  "length (doc_nodes (document_before_patch legacy_env (Some legacy_document))) = 4 \<and>
   sn_type (doc_nodes (document_before_patch legacy_env (Some legacy_document)) ! 0)
     = ''T2IAdapterLoader'' \<and>
   sn_type (doc_nodes (document_before_patch legacy_env (Some legacy_document)) ! 1)
     = ''ConditioningAverage '' \<and>
   sn_type (doc_nodes (document_before_patch legacy_env (Some legacy_document)) ! 2)
     = ''SDV_img2vid_Conditioning'' \<and>
   sn_type (doc_nodes (fst (document_configured legacy_env (Some legacy_document))) ! 0)
     = ''ControlNetLoader'' \<and>
   sn_type (doc_nodes (fst (document_configured legacy_env (Some legacy_document))) ! 1)
     = ''ConditioningAverage'' \<and>
   sn_type (doc_nodes (fst (document_configured legacy_env (Some legacy_document))) ! 2)
     = ''SVD_img2vid_Conditioning''"
proof -
  have before: "doc_nodes (document_before_patch legacy_env (Some legacy_document))
      = doc_nodes legacy_document"
    by (simp add: document_before_patch_def legacy_env_def)
  have n: "length (doc_nodes legacy_document) = 4"
    by (simp add: legacy_document_def)
  have t: "sn_type (doc_nodes legacy_document ! 0) = ''T2IAdapterLoader''"
    "sn_type (doc_nodes legacy_document ! 1) = ''ConditioningAverage ''"
    "sn_type (doc_nodes legacy_document ! 2) = ''SDV_img2vid_Conditioning''"
    by (simp_all add: legacy_document_def)
  show ?thesis
    using loadGraphData_normalizes [of legacy_env "Some legacy_document"] n t
    by (simp add: before)
qed
section \<open>Theorems about graphToPrompt\<close>

subsection \<open>Compiling the example graphs\<close>

lemmas graph_eval = plain_node_def plain_widget_def mk_link_def mk_slot_def
  getNodeById_def getInputNode_def getInputLink_def matching_input_def

lemmas compile_eval = graphToPrompt_def plain_hooks_def
  before_outer_def update_node_def inner_nodes_def apply_virtual_def
  run_beforeQueued_def serialize_node_def compiled_nodes_def live_def
  bypass_loop.simps record_link_def record_pair_def reference_pair_def
  put_input_def put_step_def js_put_def array_index_def digit_of_def
  output_has_def step_member_def Object_prototype_def
  node_data_def serialized_def cleanup_def graph_serialize_def String_nat.simps
  String_int_def digit_chars_def Let_def

lemma bypass_graph_compiles:
  "graphToPrompt plain_hooks bypass_graph = Some (bypass_graph, Inr bypass_prompt)"
  by (simp add: compile_eval graph_eval bypass_graph_def bypass_prompt_def)

lemma seed_graph_compiles:
  "graphToPrompt plain_hooks (seed_graph None a v) = Some (seed_graph None a v, Inr (seed_prompt v))"
  by (simp add: compile_eval graph_eval seed_graph_def seed_prompt_def)

lemma seed_graph_before_compiles:
  "graphToPrompt plain_hooks (seed_graph (Some bump) a v)
     = Some (seed_graph (Some bump) a (v + 1), Inr (seed_prompt (v + 1)))"
  by (simp add: compile_eval graph_eval seed_graph_def seed_prompt_def)

lemma orphan_graph_throws:
  "graphToPrompt plain_hooks orphan_graph = Some (orphan_graph, Inl TypeError)"
  by (simp add: compile_eval graph_eval orphan_graph_def)

text \<open>The steps of the output are in the order in which JavaScript enumerates the keys.\<close>

lemma descending_graph_compiles:
  "graphToPrompt plain_hooks descending_graph = Some (descending_graph, Inr descending_prompt)"
  by (simp add: compile_eval graph_eval descending_graph_def descending_prompt_def)

subsection \<open>References to steps that the plan does not have\<close>

text \<open>
  C1, evaluated where the code fails it. The cleanup pass tests \<open>!output[k]\<close>, and
  \<open>output\<close> inherits the members of \<open>Object.prototype\<close>: a reference to a removed node
  whose id is the name of such a member is kept. On \<open>proto_graph\<close> the step of node 1
  keeps the pair that names the node \<open>constructor\<close>, which has no step in the output.
\<close>

theorem dangling_reference_kept:
  "graphToPrompt plain_hooks proto_graph = Some (proto_graph, Inr proto_prompt) \<and>
   map_of (prompt_output proto_prompt) ''1''
     = Some \<lparr>class_type = ''PreviewImage'',
             step_inputs = [(''images'', JArr [JStr ''constructor'', JNum 0])],
             meta_title = None\<rparr> \<and>
   to_key (JStr ''constructor'') \<notin> fst ` set (prompt_output proto_prompt)"
proof -
  have "graphToPrompt plain_hooks proto_graph = Some (proto_graph, Inr proto_prompt)"
    by (simp add: compile_eval graph_eval proto_graph_def proto_prompt_def)
  then show ?thesis
    by (simp add: proto_prompt_def)
qed

subsection \<open>What the cleanup pass leaves\<close>

lemma set_update_subset: "set (AList.update k v al) \<subseteq> insert (k, v) (set al)"
  by (induction al) auto

lemma insert_index_set: "set (insert_index n k v ps) = insert (k, v) (set ps)"
  by (induction ps) (auto split: option.splits if_splits)

lemma insert_index_distinct:
  "k \<notin> fst ` set ps \<Longrightarrow> distinct (map fst ps) \<Longrightarrow> distinct (map fst (insert_index n k v ps))"
proof (induction ps)
  case Nil
  then show ?case by simp
next
  case (Cons x ps)
  obtain k' v' where x: "x = (k', v')" by (cases x)
  have "fst ` set (insert_index n k v ps) = insert k (fst ` set ps)"
    by (simp add: insert_index_set)
  with Cons x show ?case
    by (auto split: option.splits)
qed

lemma js_put_set: "set (js_put k v ps) \<subseteq> insert (k, v) (set ps)"
  using set_update_subset [of k v ps]
  by (auto simp: js_put_def insert_index_set split: option.splits)

lemma js_put_distinct: "distinct (map fst ps) \<Longrightarrow> distinct (map fst (js_put k v ps))"
proof (cases "map_of ps k")
  case None
  assume d: "distinct (map fst ps)"
  from None have "k \<notin> fst ` set ps"
    by (simp add: map_of_eq_None_iff)
  with d None show ?thesis
    by (auto simp: js_put_def insert_index_distinct split: option.splits)
next
  case (Some a)
  assume "distinct (map fst ps)"
  with Some show ?thesis
    by (simp add: js_put_def AList.distinct_update)
qed

lemma put_input_distinct:
  "distinct (map fst (fst acc)) \<Longrightarrow> distinct (map fst (fst (put_input k v acc)))"
  by (cases acc) (simp add: put_input_def js_put_distinct)

lemma store_widgets_distinct:
  "distinct (map fst (fst acc)) \<Longrightarrow> store_widgets h node is g acc = (Inr acc', g') \<Longrightarrow>
     distinct (map fst (fst acc'))"
proof (induction "is" arbitrary: g acc)
  case Nil
  then show ?case by simp
next
  case (Cons i "is")
  show ?case
  proof (cases "i < length (widgets (live g node)) \<and> serialized (widgets (live g node) ! i)")
    case False
    with Cons show ?thesis by auto
  next
    case True
    show ?thesis
    proof (cases "serializeValue h (live g node) i")
      case None
      with Cons.prems True Cons.IH [OF put_input_distinct [OF Cons.prems(1)]] show ?thesis
        by simp
    next
      case (Some f)
      obtain x gx where f: "f g = (x, gx)" by (cases "f g")
      show ?thesis
      proof (cases x)
        case (Inl e)
        with Cons.prems True Some f show ?thesis by simp
      next
        case (Inr v)
        with Cons.prems True Some f Cons.IH [OF put_input_distinct [OF Cons.prems(1)]]
        show ?thesis by simp
      qed
    qed
  qed
qed

lemma record_pair_distinct:
  "distinct (map fst (fst acc)) \<Longrightarrow> record_pair node i l acc = Inr acc' \<Longrightarrow>
     distinct (map fst (fst acc'))"
  by (auto simp: record_pair_def put_input_distinct split: if_splits)

lemma record_link_distinct:
  "distinct (map fst (fst acc)) \<Longrightarrow> record_link h node i pp ll g acc = (Inr acc', g') \<Longrightarrow>
     distinct (map fst (fst acc'))"
  by (auto simp: record_link_def
      split: option.splits prod.splits sum.splits dest: record_pair_distinct)

lemma store_links_distinct:
  "distinct (map fst (fst acc)) \<Longrightarrow> store_links h node is g acc = Some (Inr acc', g') \<Longrightarrow>
     distinct (map fst (fst acc'))"
proof (induction "is" arbitrary: g acc)
  case Nil
  then show ?case by simp
next
  case (Cons i "is")
  show ?case
  proof (cases "getInputNode g (live g node) i")
    case None
    with Cons show ?thesis by simp
  next
    case (Some parent)
    with Cons.prems(2) obtain pp ll acc1 g1 where
      r: "record_link h node i pp ll g acc = (Inr acc1, g1)"
      and s: "store_links h node is g1 acc1 = Some (Inr acc', g')"
      by (auto split: option.splits sum.splits prod.splits)
    from Cons.IH [OF record_link_distinct [OF Cons.prems(1) r] s] show ?thesis .
  qed
qed

lemma put_step_wf:
  "wf_output (fst out) \<Longrightarrow> distinct (map fst (step_inputs st)) \<Longrightarrow>
     wf_output (fst (put_step k st out))"
proof -
  assume w: "wf_output (fst out)" and d: "distinct (map fst (step_inputs st))"
  obtain own inh where o: "out = (own, inh)" by (cases out)
  have "\<forall>(j, s) \<in> set (js_put k st own). distinct (map fst (step_inputs s))"
    using js_put_set [of k st own] w d o by (auto simp: wf_output_def)
  with w o show ?thesis
    by (simp add: put_step_def wf_output_def js_put_distinct)
qed

lemma serialize_node_wf:
  assumes "serialize_node h node g out = Some (Inr out', g')" and "wf_output (fst out)"
  shows "wf_output (fst out')"
proof (cases "isVirtualNode node \<or> mode node = 2 \<or> mode node = 4")
  case True
  with assms show ?thesis by (auto simp: serialize_node_def split: if_splits)
next
  case False
  with assms(1) obtain acc g1 acc' where
    w: "store_widgets h node [0..<length (widgets node)] g ([], False) = (Inr acc, g1)"
    and l: "store_links h node [0..<length (inputs (live g1 node))] g1 acc = Some (Inr acc', g')"
    and o: "out' = put_step (String_ident (node_id (live g' node)))
                     (node_data h (live g' node) (fst acc')) out"
    by (auto simp: serialize_node_def split: option.splits sum.splits prod.splits)
  have "distinct (map fst (fst acc))"
    using store_widgets_distinct [OF _ w] by simp
  from store_links_distinct [OF this l] have "distinct (map fst (fst acc'))" .
  then show ?thesis
    unfolding o by (intro put_step_wf [OF assms(2)]) (simp add: node_data_def)
qed

lemma serialize_nodes_wf:
  "serialize_nodes h ns g out = Some (Inr out', g') \<Longrightarrow> wf_output (fst out) \<Longrightarrow>
     wf_output (fst out')"
proof (induction ns arbitrary: g out)
  case Nil
  then show ?case by simp
next
  case (Cons n ns)
  from Cons.prems(1) obtain out1 g1 where
    a: "serialize_node h (live g n) g out = Some (Inr out1, g1)"
    and b: "serialize_nodes h ns g1 out1 = Some (Inr out', g')"
    by (auto split: option.splits sum.splits prod.splits)
  from Cons.IH [OF b serialize_node_wf [OF a Cons.prems(2)]] show ?case .
qed

lemma serialize_outer_wf:
  "serialize_outer h ids g out = Some (Inr out', g') \<Longrightarrow> wf_output (fst out) \<Longrightarrow>
     wf_output (fst out')"
proof (induction ids arbitrary: g out)
  case Nil
  then show ?case by simp
next
  case (Cons i ids)
  show ?case
  proof (cases "getNodeById g i")
    case None
    with Cons show ?thesis by simp
  next
    case (Some outerNode)
    with Cons.prems(1) obtain out1 g1 where
      a: "serialize_nodes h (compiled_nodes h g outerNode) g out = Some (Inr out1, g1)"
      and b: "serialize_outer h ids g1 out1 = Some (Inr out', g')"
      by (auto split: option.splits sum.splits prod.splits)
    from Cons.IH [OF b serialize_nodes_wf [OF a Cons.prems(2)]] show ?thesis .
  qed
qed

lemma prune_step:
  assumes "distinct (map fst ins)"
  shows "(case map_of ins i of
            None \<Rightarrow> ins
          | Some v \<Rightarrow> if dangling out v then AList.delete i ins else ins)
         = filter (\<lambda>(j, v). j = i \<longrightarrow> \<not> dangling out v) ins"
proof (cases "map_of ins i")
  case None
  then have "\<forall>x \<in> set ins. fst x \<noteq> i"
    by (auto simp: map_of_eq_None_iff)
  then have "filter (\<lambda>(j, v). j = i \<longrightarrow> \<not> dangling out v) ins = ins"
    by (auto simp: filter_id_conv)
  with None show ?thesis by simp
next
  case (Some v)
  have same: "\<And>j w. (j, w) \<in> set ins \<Longrightarrow> j = i \<Longrightarrow> w = v"
    using Some assms by (auto simp: map_of_eq_Some_iff)
  show ?thesis
  proof (cases "dangling out v")
    case True
    have "filter (\<lambda>(j, v). j = i \<longrightarrow> \<not> dangling out v) ins = filter (\<lambda>(j, v). i \<noteq> j) ins"
      using same True by (intro filter_cong) auto
    with Some True show ?thesis by (simp add: AList.delete_eq)
  next
    case False
    have "filter (\<lambda>(j, v). j = i \<longrightarrow> \<not> dangling out v) ins = ins"
      using same False by (auto simp: filter_id_conv)
    with Some False show ?thesis by simp
  qed
qed

lemma prune_inputs_filter:
  "distinct (map fst ins) \<Longrightarrow>
     prune_inputs out ks ins = filter (\<lambda>(i, v). i \<in> set ks \<longrightarrow> \<not> dangling out v) ins"
proof (induction ks arbitrary: ins)
  case Nil
  then show ?case by simp
next
  case (Cons k ks)
  have d: "distinct (map fst (filter (\<lambda>(j, v). j = k \<longrightarrow> \<not> dangling out v) ins))"
    using Cons.prems by (simp add: distinct_map_filter)
  show ?case
    using Cons.IH [OF d] prune_step [OF Cons.prems, where i = k and out = out]
    by (auto intro: filter_cong)
qed

lemma output_has_keys:
  assumes "fst ` set (fst out) = fst ` set (fst out')" and "snd out = snd out'"
  shows "output_has out k = output_has out' k"
proof -
  have "(map_of (fst out) k = None) = (map_of (fst out') k = None)"
    using assms(1) by (simp only: map_of_eq_None_iff)
  then show ?thesis
    using assms(2)
    by (cases "map_of (fst out) k"; cases "map_of (fst out') k")
      (simp_all add: output_has_def case_prod_beta)
qed

lemma dangling_keys:
  assumes "fst ` set (fst out) = fst ` set (fst out')" and "snd out = snd out'"
  shows "dangling out v = dangling out' v"
proof (cases "\<exists>a b. v = JArr [a, b]")
  case True
  then obtain a b where "v = JArr [a, b]" by blast
  with output_has_keys [OF assms, of "to_key a"] show ?thesis by simp
next
  case False
  have "\<not> dangling x v" for x
    using False by (induction x v rule: dangling.induct) simp_all
  then show ?thesis by simp
qed

lemma in_fst_image: "(a, b) \<in> set xs \<Longrightarrow> a \<in> fst ` set xs"
  by force

lemma cleanup_step_keys: "map fst (fst (cleanup_step k out)) = map fst (fst out)"
proof (cases "map_of (fst out) k")
  case None
  then show ?thesis by (simp add: cleanup_step_def)
next
  case (Some step)
  then have "k \<in> fst ` set (fst out)"
    by (auto dest: map_of_SomeD in_fst_image)
  with Some show ?thesis
    by (simp add: cleanup_step_def AList.update_keys)
qed

lemma cleanup_step_snd: "snd (cleanup_step k out) = snd out"
  by (simp add: cleanup_step_def split: option.splits)

lemma cleanup_step_wf: "wf_output (fst out) \<Longrightarrow> wf_output (fst (cleanup_step k out))"
proof -
  assume w: "wf_output (fst out)"
  show ?thesis
  proof (cases "map_of (fst out) k")
    case None
    with w show ?thesis by (simp add: cleanup_step_def)
  next
    case (Some step)
    have ds: "distinct (map fst (step_inputs step))"
      using w map_of_SomeD [OF Some] by (auto simp: wf_output_def)
    let ?st = "step\<lparr>step_inputs := prune_inputs out (map fst (step_inputs step)) (step_inputs step)\<rparr>"
    have "distinct (map fst (step_inputs ?st))"
      using ds by (simp add: prune_inputs_filter distinct_map_filter)
    then have "\<forall>(j, st) \<in> set (AList.update k ?st (fst out)). distinct (map fst (step_inputs st))"
      using set_update_subset [of k ?st "fst out"] w by (auto simp: wf_output_def)
    moreover have "distinct (map fst (fst (cleanup_step k out)))"
      using w by (simp add: cleanup_step_keys wf_output_def)
    ultimately show ?thesis
      using Some by (simp add: wf_output_def cleanup_step_def)
  qed
qed

lemma cleanup_step_other:
  "j \<noteq> k \<Longrightarrow> map_of (fst (cleanup_step k out)) j = map_of (fst out) j"
  by (simp add: cleanup_step_def AList.update_conv' split: option.splits)

lemma cleanup_step_same:
  "wf_output (fst out) \<Longrightarrow> map_of (fst (cleanup_step k out)) k = Some st \<Longrightarrow>
     \<forall>(i, v) \<in> set (step_inputs st). \<not> dangling out v"
proof -
  assume w: "wf_output (fst out)" and m: "map_of (fst (cleanup_step k out)) k = Some st"
  from m obtain step where s: "map_of (fst out) k = Some step"
    by (cases "map_of (fst out) k") (auto simp: cleanup_step_def)
  have ds: "distinct (map fst (step_inputs step))"
    using w map_of_SomeD [OF s] by (auto simp: wf_output_def)
  from m s have "st = step\<lparr>step_inputs := prune_inputs out (map fst (step_inputs step)) (step_inputs step)\<rparr>"
    by (simp add: cleanup_step_def AList.update_conv')
  then show ?thesis
    using ds by (auto simp: prune_inputs_filter dest: in_fst_image)
qed

lemma cleanup_loop_step: "cleanup_loop (k # rest) out = cleanup_loop rest (cleanup_step k out)"
  by (simp add: cleanup_step_def)

lemma cleanup_loop_keys: "map fst (fst (cleanup_loop ks out)) = map fst (fst out)"
proof (induction ks arbitrary: out)
  case Nil
  show ?case by simp
next
  case (Cons k ks)
  show ?case
    unfolding cleanup_loop_step using Cons [of "cleanup_step k out"]
    by (simp add: cleanup_step_keys)
qed

lemma cleanup_loop_snd: "snd (cleanup_loop ks out) = snd out"
proof (induction ks arbitrary: out)
  case Nil
  show ?case by simp
next
  case (Cons k ks)
  show ?case
    unfolding cleanup_loop_step using Cons [of "cleanup_step k out"]
    by (simp add: cleanup_step_snd)
qed

lemma cleanup_loop_other:
  "j \<notin> set ks \<Longrightarrow> map_of (fst (cleanup_loop ks out)) j = map_of (fst out) j"
proof (induction ks arbitrary: out)
  case Nil
  show ?case by simp
next
  case (Cons k ks)
  then show ?case
    unfolding cleanup_loop_step by (simp add: cleanup_step_other)
qed

lemma keys_image: "map fst xs = map fst ys \<Longrightarrow> fst ` set xs = fst ` set ys"
  by (metis set_map)

lemma cleanup_loop_clean:
  "wf_output (fst out) \<Longrightarrow> j \<in> set ks \<Longrightarrow> map_of (fst (cleanup_loop ks out)) j = Some st \<Longrightarrow>
     \<forall>(i, v) \<in> set (step_inputs st). \<not> dangling out v"
proof (induction ks arbitrary: out)
  case Nil
  then show ?case by simp
next
  case (Cons k ks)
  have w1: "wf_output (fst (cleanup_step k out))"
    using Cons.prems(1) by (rule cleanup_step_wf)
  have same: "\<And>v. dangling (cleanup_step k out) v = dangling out v"
    by (rule dangling_keys) (rule keys_image, rule cleanup_step_keys, rule cleanup_step_snd)
  have m: "map_of (fst (cleanup_loop ks (cleanup_step k out))) j = Some st"
    using Cons.prems(3) unfolding cleanup_loop_step .
  show ?case
  proof (cases "j \<in> set ks")
    case True
    from Cons.IH [OF w1 True m] same show ?thesis by simp
  next
    case False
    with Cons.prems(2) have jk: "j = k" by simp
    from m False have "map_of (fst (cleanup_step k out)) j = Some st"
      by (simp add: cleanup_loop_other)
    with jk cleanup_step_same [OF Cons.prems(1), of k st] show ?thesis by simp
  qed
qed

lemma cleanup_references:
  assumes w: "wf_output (fst out)"
    and k: "(k, st) \<in> set (fst (cleanup out))"
    and i: "(i, JArr [a, b]) \<in> set (step_inputs st)"
  shows "output_has (cleanup out) (to_key a)"
proof -
  have keys: "map fst (fst (cleanup out)) = map fst (fst out)"
    by (simp add: cleanup_def cleanup_loop_keys)
  have d: "distinct (map fst (fst (cleanup out)))"
    using w keys by (simp add: wf_output_def)
  have m: "map_of (fst (cleanup_loop (map fst (fst out)) out)) k = Some st"
    using k d by (simp add: cleanup_def)
  have "k \<in> set (map fst (fst out))"
    using k keys by (metis fst_conv image_eqI set_map)
  from cleanup_loop_clean [OF w this m] i have "\<not> dangling out (JArr [a, b])"
    by auto
  then have "output_has out (to_key a)"
    by simp
  then show ?thesis
    using output_has_keys [OF keys_image [OF keys], of "to_key a"]
    by (simp add: cleanup_def cleanup_loop_snd)
qed

lemma output_has_cases:
  "output_has out k \<Longrightarrow>
     k \<in> fst ` set (fst out) \<or> k \<in> set Object_prototype \<or>
     k \<in> {''class_type'', ''inputs'', ''_meta''}"
  by (cases out) (auto simp: output_has_def step_member_def map_of_eq_None_iff
      split: option.splits)

text \<open>
  Every array of two elements that the cleanup pass leaves in an output names, by its
  first element, something that \<open>output[k]\<close> finds: an own key of the output, a member
  that the output inherits from \<open>Object.prototype\<close>, or one of the three fields of a step
  (which the output inherits when an assignment to \<open>__proto__\<close> has made a step its
  prototype).
\<close>

lemma graphToPrompt_references:
  assumes "graphToPrompt h g = Some (g', Inr p)"
    and "(k, st) \<in> set (prompt_output p)"
    and "(i, JArr [a, b]) \<in> set (step_inputs st)"
  shows "to_key a \<in> fst ` set (prompt_output p) \<or> to_key a \<in> set Object_prototype \<or>
         to_key a \<in> {''class_type'', ''inputs'', ''_meta''}"
proof -
  define g1 where "g1 = fold (before_outer h) (computeExecutionOrder h g) g"
  from assms(1) obtain out where
    s: "serialize_outer h (computeExecutionOrder h g1) g1 ([], None) = Some (Inr out, g')"
    and p: "prompt_output p = fst (cleanup out)"
    by (auto simp: graphToPrompt_def Let_def g1_def split: option.splits sum.splits prod.splits)
  have "wf_output (fst out)"
    using serialize_outer_wf [OF s] by (simp add: wf_output_def)
  from cleanup_references [OF this, of k st i a b] assms(2,3) p
  have "output_has (cleanup out) (to_key a)"
    by simp
  from output_has_cases [OF this] p show ?thesis
    by simp
qed

subsection \<open>Termination of the resolution loop\<close>

lemma getNodeById_in: "getNodeById g i = Some q \<Longrightarrow> q \<in> set (nodes g) \<and> node_id q = i"
  by (auto simp: getNodeById_def find_Some_iff)

lemma getInputNode_in: "getInputNode g p k = Some q \<Longrightarrow> q \<in> set (nodes g)"
  by (auto simp: getInputNode_def split: option.splits dest: getNodeById_in)

lemma getInputNode_bound: "getInputNode g p k = Some q \<Longrightarrow> k < length (inputs p)"
  by (auto simp: getInputNode_def getInputLink_def split: option.splits if_splits)

lemma bypass_loop_no_link: "\<exists>r. bypass_loop g ty p None = Some r"
  by (subst bypass_loop.simps) simp

lemma ranked_step:
  "ranked g rank \<Longrightarrow> p \<in> set (nodes g) \<Longrightarrow> bypassable p \<Longrightarrow> getInputNode g p k = Some q \<Longrightarrow>
     rank q < rank p"
proof -
  assume r: "ranked g rank" and p: "p \<in> set (nodes g)" and b: "bypassable p"
    and q: "getInputNode g p k = Some q"
  from r p b have "\<forall>k \<in> set [0..<length (inputs p)].
      case getInputNode g p k of None \<Rightarrow> True | Some q \<Rightarrow> rank q < rank p"
    unfolding ranked_def by (simp add: list_all_iff)
  moreover have "k \<in> set [0..<length (inputs p)]"
    using getInputNode_bound [OF q] by simp
  ultimately have "case getInputNode g p k of None \<Rightarrow> True | Some q \<Rightarrow> rank q < rank p"
    by blast
  with q show ?thesis by simp
qed

lemma bypass_loop_returns:
  assumes r: "ranked g rank" and p: "parent \<in> set (nodes g)"
  shows "\<exists>r. bypass_loop g ty parent link = Some r"
  using p
proof (induction "rank parent" arbitrary: parent link rule: less_induct)
  case less
  note IH = less.hyps and pin = less.prems
  show ?case
  proof (cases "bypassable parent")
    case False
    then show ?thesis
      by (subst bypass_loop.simps) (simp add: bypassable_def)
  next
    case byp: True
    show ?thesis
    proof (cases link)
      case None
      then show ?thesis using bypass_loop_no_link by simp
    next
      case (Some l)
      show ?thesis
      proof (cases "isVirtualNode parent")
        case True
        show ?thesis
        proof (cases "getInputLink g parent (origin_slot l)")
          case None
          with True Some show ?thesis by (subst bypass_loop.simps) simp
        next
          case l': (Some l')
          show ?thesis
          proof (cases "getInputNode g parent (target_slot l')")
            case None
            with True Some l' show ?thesis by (subst bypass_loop.simps) simp
          next
            case q: (Some q)
            have "rank q < rank parent" using ranked_step [OF r pin byp q] .
            from IH [OF this getInputNode_in [OF q], of "Some l'"] True Some l' q
            show ?thesis by (subst bypass_loop.simps) simp
          qed
        qed
      next
        case False
        with byp have m: "mode parent = 4" by (simp add: bypassable_def)
        show ?thesis
        proof (cases "matching_input parent ty l")
          case None
          with False m Some show ?thesis by (subst bypass_loop.simps) simp
        next
          case k: (Some k)
          show ?thesis
          proof (cases "getInputLink g parent k")
            case None
            with False m Some k bypass_loop_no_link [of g ty parent] show ?thesis
              by (subst bypass_loop.simps) simp
          next
            case l': (Some l')
            show ?thesis
            proof (cases "getInputNode g parent k")
              case None
              with False m Some k l' show ?thesis by (subst bypass_loop.simps) simp
            next
              case q: (Some q)
              have "rank q < rank parent" using ranked_step [OF r pin byp q] .
              from IH [OF this getInputNode_in [OF q], of "Some l'"] False m Some k l' q
              show ?thesis by (subst bypass_loop.simps) simp
            qed
          qed
        qed
      qed
    qed
  qed
qed

lemma cyclic_never:
  assumes "bypass_loop g ty parent link = Some y"
  shows "\<not> cyc_state g parent link"
proof (rule bypass_loop.raw_induct [where P = "\<lambda>g ty parent link y. \<not> cyc_state g parent link", OF _ assms])
  fix f g ty parent link y
  assume IH: "\<And>g ty parent link y. f g ty parent link = Some y \<Longrightarrow> \<not> cyc_state g parent link"
    and body: "(if mode parent = 4 \<or> isVirtualNode parent then
        (if isVirtualNode parent then
           (case link of
              None \<Rightarrow> Some (Inl TypeError)
            | Some l \<Rightarrow>
                (case getInputLink g parent (origin_slot l) of
                   None \<Rightarrow> Some (Inr (Some parent, None))
                 | Some l' \<Rightarrow>
                     (case getInputNode g parent (target_slot l') of
                        None \<Rightarrow> Some (Inr (None, Some l'))
                      | Some p' \<Rightarrow> f g ty p' (Some l'))))
         else
           (case link of
              None \<Rightarrow> Some (Inr (Some parent, None))
            | Some l \<Rightarrow>
                (if mode parent = 4 then
                   (case matching_input parent ty l of
                      None \<Rightarrow> Some (Inr (Some parent, Some l))
                    | Some k \<Rightarrow>
                        (case getInputLink g parent k of
                           None \<Rightarrow> f g ty parent None
                         | Some l' \<Rightarrow>
                             (case getInputNode g parent k of
                                None \<Rightarrow> Some (Inl TypeError)
                              | Some p' \<Rightarrow> f g ty p' (Some l'))))
                 else Some (Inr (Some parent, Some l)))))
      else Some (Inr (Some parent, link))) = Some y"
  show "\<not> cyc_state g parent link"
  proof
    assume c: "cyc_state g parent link"
    then obtain l where l: "link = Some l" "origin_slot l = 0" and g: "g = cyclic_graph"
      and v: "isVirtualNode parent" and pin: "parent \<in> set (nodes cyclic_graph)"
      by (auto simp: cyc_state_def)
    from pin v obtain l' p' where
      n: "getInputLink cyclic_graph parent 0 = Some l'" "origin_slot l' = 0" "target_slot l' = 0"
         "getInputNode cyclic_graph parent 0 = Some p'" "p' \<in> set (nodes cyclic_graph)"
         "isVirtualNode p'"
      by (auto simp: cyclic_graph_def graph_eval)
    from body l g v n have "f cyclic_graph ty p' (Some l') = Some y"
      by simp
    from IH [OF this] n show False
      by (simp add: cyc_state_def)
  qed
qed

text \<open>
  C7 as stated fails: on a graph in which two virtual nodes feed each other, the loop
  never leaves the cycle and \<open>graphToPrompt\<close> does not return.
\<close>

theorem cyclic_graph_counterexample: "graphToPrompt plain_hooks cyclic_graph = None"
proof -
  have "bypass_loop cyclic_graph ''IMAGE''
          ((plain_node 2 ''Reroute'' [mk_slot ''in'' ''*'' (Some 22)] [])\<lparr>isVirtualNode := True\<rparr>)
          (Some (mk_link 2 0 1 0)) = None"
    using cyclic_never [of cyclic_graph "''IMAGE''"
        "(plain_node 2 ''Reroute'' [mk_slot ''in'' ''*'' (Some 22)] [])\<lparr>isVirtualNode := True\<rparr>"
        "Some (mk_link 2 0 1 0)"]
    by (cases "bypass_loop cyclic_graph ''IMAGE''
          ((plain_node 2 ''Reroute'' [mk_slot ''in'' ''*'' (Some 22)] [])\<lparr>isVirtualNode := True\<rparr>)
          (Some (mk_link 2 0 1 0))") (auto simp: cyc_state_def cyclic_graph_def graph_eval)
  then show ?thesis
    by (simp add: graphToPrompt_def plain_hooks_def before_outer_def update_node_def inner_nodes_def
        apply_virtual_def run_beforeQueued_def serialize_node_def compiled_nodes_def live_def
        cyclic_graph_def graph_eval Let_def)
qed

subsection \<open>The loop terminates on graphs without a cycle of skipped producers\<close>

lemma bypass_graph_ranked: "ranked bypass_graph id_rank"
  by (simp add: ranked_def bypassable_def bypass_graph_def graph_eval id_rank_def)

text \<open>
  C7 (as amended). The resolution loop returns, for every slot type and every link,
  when it starts at a node of a graph whose skipped producers are ranked: on every graph
  in which following the inputs of virtual and bypassed nodes upstream never comes back
  to a node already passed.
\<close>

theorem bypass_loop_terminates:
  assumes "ranked g rank" and "parent \<in> set (nodes g)"
  shows "\<exists>r. bypass_loop g ty parent link = Some r"
  using assms by (rule bypass_loop_returns)

theorem bypass_loop_terminates_witness:
  "ranked bypass_graph id_rank \<and> nodes bypass_graph ! 2 \<in> set (nodes bypass_graph) \<and>
   (\<exists>r. bypass_loop bypass_graph ''IMAGE'' (nodes bypass_graph ! 2) (Some (mk_link 3 0 4 0))
      = Some r)"
proof -
  have m: "nodes bypass_graph ! 2 \<in> set (nodes bypass_graph)"
    by (simp add: bypass_graph_def)
  from bypass_loop_terminates [OF bypass_graph_ranked m] bypass_graph_ranked m
  show ?thesis by blast
qed

subsection \<open>The loop follows the chain of skipped producers\<close>

text \<open>The search of the code finds the input that the spec's words describe.\<close>

lemma matching_pick: "matching_input p ty l = pick_input p ty (origin_slot l)"
proof -
  have "find (\<lambda>k. k < length (inputs p) \<and> slot_type (inputs p ! k) = ty) [0..<length (inputs p)]
      = find (\<lambda>k. slot_type (inputs p ! k) = ty) [0..<length (inputs p)]"
    by (rule find_cong) auto
  then show ?thesis
    by (simp add: matching_input_def pick_input_def)
qed

lemma hop_loop:
  "hop g ty (p, l) (q, l') \<Longrightarrow> bypass_loop g ty p (Some l) = bypass_loop g ty q (Some l')"
proof (induction "(p, l)" "(q, l')" rule: hop.induct)
  case (hop_virtual)
  then show ?case
    by (subst bypass_loop.simps) (simp add: getInputNode_def)
next
  case (hop_bypass k)
  then show ?case
    by (subst bypass_loop.simps) (simp add: getInputNode_def matching_pick)
qed

lemma hops_loop:
  "(hop g ty)\<^sup>*\<^sup>* (p, l) (q, l') \<Longrightarrow> bypass_loop g ty p (Some l) = bypass_loop g ty q (Some l')"
  by (induction rule: converse_rtranclp_induct2) (simp_all add: hop_loop)

lemma hop_origin: "hop g ty a (q, l') \<Longrightarrow> getNodeById g (origin_id l') = Some q"
  by (auto elim: hop.cases)

lemma hops_origin:
  "(hop g ty)\<^sup>*\<^sup>* (p, l) (q, l') \<Longrightarrow> getNodeById g (origin_id l) = Some p \<Longrightarrow>
     getNodeById g (origin_id l') = Some q"
  by (erule rtranclp.cases) (auto dest: hop_origin)

lemma loop_stops:
  "\<not> isVirtualNode q \<Longrightarrow> mode q \<noteq> 4 \<Longrightarrow> bypass_loop g ty q link = Some (Inr (Some q, link))"
  by (subst bypass_loop.simps) simp

lemma loop_no_match:
  "\<not> isVirtualNode p \<Longrightarrow> mode p = 4 \<Longrightarrow> pick_input p ty (origin_slot l) = None \<Longrightarrow>
     bypass_loop g ty p (Some l) = Some (Inr (Some p, Some l))"
  by (subst bypass_loop.simps) (simp add: matching_pick)

lemma loop_virtual_unconnected:
  "isVirtualNode p \<Longrightarrow> getInputLink g p (origin_slot l) = None \<Longrightarrow>
     bypass_loop g ty p (Some l) = Some (Inr (Some p, None))"
  by (subst bypass_loop.simps) simp

lemma loop_match_unconnected:
  "\<not> isVirtualNode p \<Longrightarrow> mode p = 4 \<Longrightarrow> pick_input p ty (origin_slot l) = Some k \<Longrightarrow>
     getInputLink g p k = None \<Longrightarrow> bypass_loop g ty p (Some l) = Some (Inr (Some p, None))"
  by (subst bypass_loop.simps, simp add: matching_pick, subst bypass_loop.simps, simp)

text \<open>One turn of the loop over the inputs, and what is recorded after the search.\<close>

lemma store_links_single:
  assumes "getInputNode g (live g node) i = Some p0"
    and "bypass_loop g (slot_type (inputs (live g node) ! i)) p0 (getInputLink g (live g node) i)
           = Some (Inr (pp, ll))"
  shows "store_links h node [i] g acc = Some (record_link h node i pp ll g acc)"
  using assms by (auto split: prod.splits sum.splits)

lemma record_link_none: "record_link h node i pp None g acc = (Inr acc, g)"
  by (simp add: record_link_def)

lemma record_link_plain:
  "updateLink h p = None \<Longrightarrow> i < length (inputs (live g node)) \<Longrightarrow>
     record_link h node i (Some p) (Some l) g acc
       = (Inr (put_input (slot_name (inputs (live g node) ! i)) (reference_pair l) acc), g)"
  by (simp add: record_link_def record_pair_def)

lemma record_link_hook:
  "updateLink h p = Some f \<Longrightarrow>
     record_link h node i (Some p) (Some l) g acc
       = (case f g l of
            (Inl e, g') \<Rightarrow> (Inl e, g')
          | (Inr None, g') \<Rightarrow> (Inr acc, g')
          | (Inr (Some l'), g') \<Rightarrow> (record_pair (live g' node) i l' acc, g'))"
  by (simp add: record_link_def)

lemma getInputLink_bound: "getInputLink g n i = Some l \<Longrightarrow> i < length (inputs n)"
  by (auto simp: getInputLink_def split: if_splits)

text \<open>
  C5 (as amended). Let input \<open>i\<close> of \<open>node\<close> have the link \<open>l0\<close>, which comes from the
  producer \<open>p0\<close>, and let a chain of hops (over virtual producers by their paired input,
  over bypassed producers by the input of matching type, the one at the index of the
  bypassed link first, else the first in declaration order) lead to the producer \<open>p\<close>
  with the link \<open>l\<close>. Then the turn of the loop over the inputs ends as follows.
  If \<open>p\<close> is neither virtual nor bypassed, or is bypassed and has no input of the slot's
  type, then \<open>p\<close> is referenced: when \<open>p\<close> has no \<open>updateLink\<close>, the pair of the id of \<open>p\<close>
  and the origin slot of \<open>l\<close> is recorded under the name of the input, and no error is
  raised; when it has, the pair recorded is that of the link that \<open>updateLink\<close> returns
  for \<open>l\<close>, nothing is recorded when it returns none, and its error is raised when it
  throws.
  If \<open>p\<close> is virtual and its paired input is unconnected, or \<open>p\<close> is bypassed and its
  input of matching type is unconnected, nothing is recorded for the input, and no error
  is raised.
\<close>

theorem bypass_resolution:
  assumes inp: "getInputLink g (live g node) i = Some l0"
    and org: "getNodeById g (origin_id l0) = Some p0"
    and chain: "(hop g (slot_type (inputs (live g node) ! i)))\<^sup>*\<^sup>* (p0, l0) (p, l)"
  shows
   "(\<not> isVirtualNode p \<and>
     (mode p = 4 \<longrightarrow> pick_input p (slot_type (inputs (live g node) ! i)) (origin_slot l) = None) \<longrightarrow>
       (updateLink h p = None \<longrightarrow>
          store_links h node [i] g acc
            = Some (Inr (put_input (slot_name (inputs (live g node) ! i))
                           (JArr [JStr (String_ident (node_id p)), JNum (int (origin_slot l))])
                           acc), g)) \<and>
       (\<forall>f. updateLink h p = Some f \<longrightarrow>
          store_links h node [i] g acc
            = Some (case f g l of
                      (Inl e, g') \<Rightarrow> (Inl e, g')
                    | (Inr None, g') \<Rightarrow> (Inr acc, g')
                    | (Inr (Some l'), g') \<Rightarrow> (record_pair (live g' node) i l' acc, g')))) \<and>
    (isVirtualNode p \<and> getInputLink g p (origin_slot l) = None \<longrightarrow>
       store_links h node [i] g acc = Some (Inr acc, g)) \<and>
    (\<not> isVirtualNode p \<and> mode p = 4 \<and>
     pick_input p (slot_type (inputs (live g node) ! i)) (origin_slot l) = Some k \<and>
     getInputLink g p k = None \<longrightarrow>
       store_links h node [i] g acc = Some (Inr acc, g))"
proof -
  let ?ty = "slot_type (inputs (live g node) ! i)"
  have n0: "getInputNode g (live g node) i = Some p0"
    using inp org by (simp add: getInputNode_def)
  have lp: "bypass_loop g ?ty p0 (getInputLink g (live g node) i) = bypass_loop g ?ty p (Some l)"
    using hops_loop [OF chain] inp by simp
  have idp: "origin_id l = node_id p"
    using hops_origin [OF chain org] by (auto dest: getNodeById_in)
  have bd: "i < length (inputs (live g node))"
    using inp by (rule getInputLink_bound)
  have stop: "\<not> isVirtualNode p \<Longrightarrow> (mode p = 4 \<Longrightarrow> pick_input p ?ty (origin_slot l) = None) \<Longrightarrow>
      store_links h node [i] g acc = Some (record_link h node i (Some p) (Some l) g acc)"
  proof -
    assume v: "\<not> isVirtualNode p" and m: "mode p = 4 \<Longrightarrow> pick_input p ?ty (origin_slot l) = None"
    have "bypass_loop g ?ty p (Some l) = Some (Inr (Some p, Some l))"
    proof (cases "mode p = 4")
      case True
      with v m show ?thesis by (simp add: loop_no_match)
    next
      case False
      with v show ?thesis by (simp add: loop_stops)
    qed
    with lp store_links_single [OF n0, of "Some p" "Some l" h acc] show ?thesis
      by (simp del: store_links.simps)
  qed
  have none: "bypass_loop g ?ty p (Some l) = Some (Inr (Some p, None)) \<Longrightarrow>
      store_links h node [i] g acc = Some (Inr acc, g)"
    using lp store_links_single [OF n0, of "Some p" None h acc]
    by (simp del: store_links.simps add: record_link_none)
  show ?thesis
    using stop none idp bd
    by (auto simp del: store_links.simps
        simp add: record_link_plain record_link_hook reference_pair_def
        loop_virtual_unconnected loop_match_unconnected)
qed

text \<open>
  On \<open>bypass_graph\<close>: the input of node 4 is resolved through the bypassed node 3 and the
  virtual node 2 to node 1 (and, where node 1 has \<open>updateLink\<close>, to what that returns); the
  input of node 6 stops at the bypassed node 5, which is referenced; the input of node 8
  ends without a link at the virtual node 7, and the input of node 10 at the bypassed
  node 9.
\<close>

lemma bypass_graph_chain:
  "(hop bypass_graph ''IMAGE'')\<^sup>*\<^sup>* (nodes bypass_graph ! 2, mk_link 3 0 4 0)
     (nodes bypass_graph ! 0, mk_link 1 0 2 0)"
proof -
  have h1: "hop bypass_graph ''IMAGE'' (nodes bypass_graph ! 2, mk_link 3 0 4 0)
      (nodes bypass_graph ! 1, mk_link 2 0 3 1)"
    by (rule hop_bypass [where k = 1]) (simp_all add: bypass_graph_def graph_eval pick_input_def)
  have h2: "hop bypass_graph ''IMAGE'' (nodes bypass_graph ! 1, mk_link 2 0 3 1)
      (nodes bypass_graph ! 0, mk_link 1 0 2 0)"
    by (rule hop_virtual) (simp_all add: bypass_graph_def graph_eval)
  from h1 have "(hop bypass_graph ''IMAGE'')\<^sup>*\<^sup>* (nodes bypass_graph ! 2, mk_link 3 0 4 0)
      (nodes bypass_graph ! 1, mk_link 2 0 3 1)"
    by (rule r_into_rtranclp)
  from this h2 show ?thesis
    by (rule rtranclp.rtrancl_into_rtrancl)
qed

lemma bypass_graph_nodes:
  "nodes bypass_graph ! 0 = plain_node 1 ''LoadImage'' [] [plain_widget ''image'' (JStr ''a.png'')]"
  "nodes bypass_graph ! 2
     = (plain_node 3 ''ImageScale''
          [mk_slot ''mask'' ''MASK'' None, mk_slot ''image'' ''IMAGE'' (Some 11)] [])\<lparr>mode := 4\<rparr>"
  "nodes bypass_graph ! 3 = plain_node 4 ''PreviewImage'' [mk_slot ''images'' ''IMAGE'' (Some 12)] []"
  "nodes bypass_graph ! 4
     = (plain_node 5 ''VAEDecode'' [mk_slot ''samples'' ''LATENT'' None] [])\<lparr>mode := 4\<rparr>"
  "nodes bypass_graph ! 5
     = plain_node 6 ''SaveImage'' [mk_slot ''images'' ''IMAGE'' (Some 13)]
         [plain_widget ''filename_prefix'' (JStr ''out'')]"
  "nodes bypass_graph ! 6
     = (plain_node 7 ''Reroute'' [mk_slot ''in'' ''*'' None] [])\<lparr>isVirtualNode := True\<rparr>"
  "nodes bypass_graph ! 7
     = plain_node 8 ''ImageInvert'' [mk_slot ''image'' ''IMAGE'' (Some 14)]
         [plain_widget ''image'' (JStr ''b.png'')]"
  "nodes bypass_graph ! 8
     = (plain_node 9 ''ImageBlur'' [mk_slot ''image'' ''IMAGE'' None] [])\<lparr>mode := 4\<rparr>"
  "nodes bypass_graph ! 9 = plain_node 10 ''ImageSharpen'' [mk_slot ''image'' ''IMAGE'' (Some 15)] []"
  by (simp_all add: bypass_graph_def)

lemma bypass_graph_live:
  "live bypass_graph (nodes bypass_graph ! 3) = nodes bypass_graph ! 3"
  "live bypass_graph (nodes bypass_graph ! 5) = nodes bypass_graph ! 5"
  "live bypass_graph (nodes bypass_graph ! 7) = nodes bypass_graph ! 7"
  "live bypass_graph (nodes bypass_graph ! 9) = nodes bypass_graph ! 9"
  by (simp_all add: live_def getNodeById_def bypass_graph_def plain_node_def)

lemma bypass_graph_inputs:
  "getInputLink bypass_graph (nodes bypass_graph ! 3) 0 = Some (mk_link 3 0 4 0)"
  "getInputLink bypass_graph (nodes bypass_graph ! 5) 0 = Some (mk_link 5 0 6 0)"
  "getInputLink bypass_graph (nodes bypass_graph ! 7) 0 = Some (mk_link 7 0 8 0)"
  "getInputLink bypass_graph (nodes bypass_graph ! 9) 0 = Some (mk_link 9 0 10 0)"
  "getNodeById bypass_graph (origin_id (mk_link 3 0 4 0)) = Some (nodes bypass_graph ! 2)"
  "getNodeById bypass_graph (origin_id (mk_link 5 0 6 0)) = Some (nodes bypass_graph ! 4)"
  "getNodeById bypass_graph (origin_id (mk_link 7 0 8 0)) = Some (nodes bypass_graph ! 6)"
  "getNodeById bypass_graph (origin_id (mk_link 9 0 10 0)) = Some (nodes bypass_graph ! 8)"
  by (simp_all add: bypass_graph_def graph_eval)

lemma bypass_graph_types:
  "slot_type (inputs (nodes bypass_graph ! 3) ! 0) = ''IMAGE''"
  "slot_type (inputs (nodes bypass_graph ! 5) ! 0) = ''IMAGE''"
  "slot_type (inputs (nodes bypass_graph ! 7) ! 0) = ''IMAGE''"
  "slot_type (inputs (nodes bypass_graph ! 9) ! 0) = ''IMAGE''"
  "slot_name (inputs (nodes bypass_graph ! 3) ! 0) = ''images''"
  "slot_name (inputs (nodes bypass_graph ! 5) ! 0) = ''images''"
  "inputs (nodes bypass_graph ! 3) \<noteq> []"
  by (simp_all add: bypass_graph_nodes plain_node_def mk_slot_def)

lemma bypass_graph_props:
  "\<not> isVirtualNode (nodes bypass_graph ! 0)" "mode (nodes bypass_graph ! 0) = 0"
  "node_id (nodes bypass_graph ! 0) = NumId 1"
  "\<not> isVirtualNode (nodes bypass_graph ! 4)" "mode (nodes bypass_graph ! 4) = 4"
  "node_id (nodes bypass_graph ! 4) = NumId 5"
  "pick_input (nodes bypass_graph ! 4) ''IMAGE'' 0 = None"
  "isVirtualNode (nodes bypass_graph ! 6)"
  "getInputLink bypass_graph (nodes bypass_graph ! 6) 0 = None"
  "\<not> isVirtualNode (nodes bypass_graph ! 8)" "mode (nodes bypass_graph ! 8) = 4"
  "pick_input (nodes bypass_graph ! 8) ''IMAGE'' 0 = Some 0"
  "getInputLink bypass_graph (nodes bypass_graph ! 8) 0 = None"
  by (simp_all add: bypass_graph_nodes plain_node_def mk_slot_def pick_input_def getInputLink_def)

lemma mk_link_sel:
  "origin_slot (mk_link a b c d) = b" "origin_id (mk_link a b c d) = NumId (int a)"
  by (simp_all add: mk_link_def)

theorem bypass_resolution_witness:
  "(hop bypass_graph ''IMAGE'')\<^sup>*\<^sup>* (nodes bypass_graph ! 2, mk_link 3 0 4 0)
     (nodes bypass_graph ! 0, mk_link 1 0 2 0) \<and>
   store_links plain_hooks (nodes bypass_graph ! 3) [0] bypass_graph ([], False)
     = Some (Inr ([(''images'', JArr [JStr ''1'', JNum 0])], False), bypass_graph) \<and>
   store_links group_hooks (nodes bypass_graph ! 3) [0] bypass_graph ([], False)
     = Some (Inr ([(''images'', JArr [JStr ''1:0'', JNum 2])], False), bypass_graph) \<and>
   store_links plain_hooks (nodes bypass_graph ! 5) [0] bypass_graph ([], False)
     = Some (Inr ([(''images'', JArr [JStr ''5'', JNum 0])], False), bypass_graph) \<and>
   store_links plain_hooks (nodes bypass_graph ! 7) [0] bypass_graph ([], False)
     = Some (Inr ([], False), bypass_graph) \<and>
   store_links plain_hooks (nodes bypass_graph ! 9) [0] bypass_graph ([], False)
     = Some (Inr ([], False), bypass_graph) \<and>
   graphToPrompt plain_hooks bypass_graph = Some (bypass_graph, Inr bypass_prompt) \<and>
   map_of (prompt_output bypass_prompt) ''4''
     = Some \<lparr>class_type = ''PreviewImage'',
             step_inputs = [(''images'', JArr [JStr ''1'', JNum 0])], meta_title = None\<rparr>"
proof -
  have put: "\<And>k v. k \<noteq> ''__proto__'' \<Longrightarrow> array_index k = None \<Longrightarrow>
      put_input k v ([], False) = ([(k, v)], False)"
    by (simp add: put_input_def js_put_def)
  have ix: "array_index ''images'' = None"
    by (simp add: array_index_def digit_of_def)
  have a: "store_links plain_hooks (nodes bypass_graph ! 3) [0] bypass_graph ([], False)
     = Some (Inr ([(''images'', JArr [JStr ''1'', JNum 0])], False), bypass_graph)"
  proof -
    have inp: "getInputLink bypass_graph (live bypass_graph (nodes bypass_graph ! 3)) 0
        = Some (mk_link 3 0 4 0)"
      by (simp add: bypass_graph_live bypass_graph_inputs)
    have org: "getNodeById bypass_graph (origin_id (mk_link 3 0 4 0)) = Some (nodes bypass_graph ! 2)"
      by (simp add: bypass_graph_inputs)
    have ch: "(hop bypass_graph
          (slot_type (inputs (live bypass_graph (nodes bypass_graph ! 3)) ! 0)))\<^sup>*\<^sup>*
        (nodes bypass_graph ! 2, mk_link 3 0 4 0) (nodes bypass_graph ! 0, mk_link 1 0 2 0)"
      using bypass_graph_chain by (simp add: bypass_graph_live bypass_graph_types)
    from bypass_resolution [OF inp org ch, where h = plain_hooks and acc = "([], False)" and k = 0]
    show ?thesis
      by (simp del: store_links.simps
          add: bypass_graph_live bypass_graph_types bypass_graph_props mk_link_sel
            plain_hooks_def group_hooks_def record_pair_def reference_pair_def put ix
            mk_link_def
            String_int_def String_nat.simps digit_chars_def)
  qed
  have b: "store_links group_hooks (nodes bypass_graph ! 3) [0] bypass_graph ([], False)
     = Some (Inr ([(''images'', JArr [JStr ''1:0'', JNum 2])], False), bypass_graph)"
  proof -
    have inp: "getInputLink bypass_graph (live bypass_graph (nodes bypass_graph ! 3)) 0
        = Some (mk_link 3 0 4 0)"
      by (simp add: bypass_graph_live bypass_graph_inputs)
    have org: "getNodeById bypass_graph (origin_id (mk_link 3 0 4 0)) = Some (nodes bypass_graph ! 2)"
      by (simp add: bypass_graph_inputs)
    have ch: "(hop bypass_graph
          (slot_type (inputs (live bypass_graph (nodes bypass_graph ! 3)) ! 0)))\<^sup>*\<^sup>*
        (nodes bypass_graph ! 2, mk_link 3 0 4 0) (nodes bypass_graph ! 0, mk_link 1 0 2 0)"
      using bypass_graph_chain by (simp add: bypass_graph_live bypass_graph_types)
    from bypass_resolution [OF inp org ch, where h = group_hooks and acc = "([], False)" and k = 0]
    show ?thesis
      by (simp del: store_links.simps
          add: bypass_graph_live bypass_graph_types bypass_graph_props mk_link_sel
            plain_hooks_def group_hooks_def record_pair_def reference_pair_def put ix
            mk_link_def
            String_int_def String_nat.simps digit_chars_def)
  qed
  have c: "store_links plain_hooks (nodes bypass_graph ! 5) [0] bypass_graph ([], False)
     = Some (Inr ([(''images'', JArr [JStr ''5'', JNum 0])], False), bypass_graph)"
  proof -
    have inp: "getInputLink bypass_graph (live bypass_graph (nodes bypass_graph ! 5)) 0
        = Some (mk_link 5 0 6 0)"
      by (simp add: bypass_graph_live bypass_graph_inputs)
    have org: "getNodeById bypass_graph (origin_id (mk_link 5 0 6 0)) = Some (nodes bypass_graph ! 4)"
      by (simp add: bypass_graph_inputs)
    have ch: "(hop bypass_graph
          (slot_type (inputs (live bypass_graph (nodes bypass_graph ! 5)) ! 0)))\<^sup>*\<^sup>*
        (nodes bypass_graph ! 4, mk_link 5 0 6 0) (nodes bypass_graph ! 4, mk_link 5 0 6 0)"
      by (simp add: bypass_graph_live bypass_graph_types)
    from bypass_resolution [OF inp org ch, where h = plain_hooks and acc = "([], False)" and k = 0]
    show ?thesis
      by (simp del: store_links.simps
          add: bypass_graph_live bypass_graph_types bypass_graph_props mk_link_sel
            plain_hooks_def group_hooks_def record_pair_def reference_pair_def put ix
            mk_link_def
            String_int_def String_nat.simps digit_chars_def)
  qed
  have d: "store_links plain_hooks (nodes bypass_graph ! 7) [0] bypass_graph ([], False)
     = Some (Inr ([], False), bypass_graph)"
  proof -
    have inp: "getInputLink bypass_graph (live bypass_graph (nodes bypass_graph ! 7)) 0
        = Some (mk_link 7 0 8 0)"
      by (simp add: bypass_graph_live bypass_graph_inputs)
    have org: "getNodeById bypass_graph (origin_id (mk_link 7 0 8 0)) = Some (nodes bypass_graph ! 6)"
      by (simp add: bypass_graph_inputs)
    have ch: "(hop bypass_graph
          (slot_type (inputs (live bypass_graph (nodes bypass_graph ! 7)) ! 0)))\<^sup>*\<^sup>*
        (nodes bypass_graph ! 6, mk_link 7 0 8 0) (nodes bypass_graph ! 6, mk_link 7 0 8 0)"
      by (simp add: bypass_graph_live bypass_graph_types)
    from bypass_resolution [OF inp org ch, where h = plain_hooks and acc = "([], False)" and k = 0]
    show ?thesis
      by (simp del: store_links.simps
          add: bypass_graph_live bypass_graph_types bypass_graph_props mk_link_sel
            plain_hooks_def group_hooks_def record_pair_def reference_pair_def put ix
            mk_link_def
            String_int_def String_nat.simps digit_chars_def)
  qed
  have e: "store_links plain_hooks (nodes bypass_graph ! 9) [0] bypass_graph ([], False)
     = Some (Inr ([], False), bypass_graph)"
  proof -
    have inp: "getInputLink bypass_graph (live bypass_graph (nodes bypass_graph ! 9)) 0
        = Some (mk_link 9 0 10 0)"
      by (simp add: bypass_graph_live bypass_graph_inputs)
    have org: "getNodeById bypass_graph (origin_id (mk_link 9 0 10 0)) = Some (nodes bypass_graph ! 8)"
      by (simp add: bypass_graph_inputs)
    have ch: "(hop bypass_graph
          (slot_type (inputs (live bypass_graph (nodes bypass_graph ! 9)) ! 0)))\<^sup>*\<^sup>*
        (nodes bypass_graph ! 8, mk_link 9 0 10 0) (nodes bypass_graph ! 8, mk_link 9 0 10 0)"
      by (simp add: bypass_graph_live bypass_graph_types)
    from bypass_resolution [OF inp org ch, where h = plain_hooks and acc = "([], False)" and k = 0]
    show ?thesis
      by (simp del: store_links.simps
          add: bypass_graph_live bypass_graph_types bypass_graph_props mk_link_sel
            plain_hooks_def group_hooks_def record_pair_def reference_pair_def put ix
            mk_link_def
            String_int_def String_nat.simps digit_chars_def)
  qed
  have f: "map_of (prompt_output bypass_prompt) ''4''
     = Some \<lparr>class_type = ''PreviewImage'',
             step_inputs = [(''images'', JArr [JStr ''1'', JNum 0])], meta_title = None\<rparr>"
    by (simp add: bypass_prompt_def)
  from bypass_graph_chain a b c d e f bypass_graph_compiles show ?thesis
    by blast
qed

text \<open>
  C5 as stated fails where no next hop is found at a virtual producer: the input
  \<open>image\<close> of node 8 is linked to the virtual node 7, which has nothing connected. The
  loop ends with no link, no pair for node 7 is recorded, and the compiled step keeps the
  value of the widget of the same name.
\<close>

theorem bypass_resolution_counterexample:
  "isVirtualNode (nodes bypass_graph ! 6) \<and>
   getInputNode bypass_graph (nodes bypass_graph ! 7) 0 = Some (nodes bypass_graph ! 6) \<and>
   store_links plain_hooks (nodes bypass_graph ! 7) [0] bypass_graph
       ([(''image'', JStr ''b.png'')], False)
     = Some (Inr ([(''image'', JStr ''b.png'')], False), bypass_graph) \<and>
   graphToPrompt plain_hooks bypass_graph = Some (bypass_graph, Inr bypass_prompt) \<and>
   map_of (prompt_output bypass_prompt) ''8''
     = Some \<lparr>class_type = ''ImageInvert'', step_inputs = [(''image'', JStr ''b.png'')],
             meta_title = None\<rparr>"
proof -
  have a: "isVirtualNode (nodes bypass_graph ! 6)"
    by (simp add: bypass_graph_nodes plain_node_def)
  have b: "getInputNode bypass_graph (nodes bypass_graph ! 7) 0 = Some (nodes bypass_graph ! 6)"
    by (simp add: getInputNode_def bypass_graph_inputs)
  have d: "bypass_loop bypass_graph ''IMAGE'' (nodes bypass_graph ! 6) (Some (mk_link 7 0 8 0))
     = Some (Inr (Some (nodes bypass_graph ! 6), None))"
    by (rule loop_virtual_unconnected)
      (simp_all add: bypass_graph_nodes plain_node_def mk_slot_def mk_link_def getInputLink_def)
  have c: "store_links plain_hooks (nodes bypass_graph ! 7) [0] bypass_graph
       ([(''image'', JStr ''b.png'')], False)
     = Some (Inr ([(''image'', JStr ''b.png'')], False), bypass_graph)"
    using store_links_single [where g = bypass_graph and node = "nodes bypass_graph ! 7"
        and i = 0 and ?p0.0 = "nodes bypass_graph ! 6" and pp = "Some (nodes bypass_graph ! 6)"
        and ll = None and h = plain_hooks and acc = "([(''image'', JStr ''b.png'')], False)"] b d
    by (simp del: store_links.simps
        add: bypass_graph_live bypass_graph_inputs bypass_graph_types record_link_none)
  have e: "map_of (prompt_output bypass_prompt) ''8''
     = Some \<lparr>class_type = ''ImageInvert'', step_inputs = [(''image'', JStr ''b.png'')],
             meta_title = None\<rparr>"
    by (simp add: bypass_prompt_def)
  from a b c e bypass_graph_compiles show ?thesis
    by blast
qed

subsection \<open>Compiling twice\<close>

text \<open>Read-only callbacks leave the state of the second loop as it is.\<close>

lemma store_widgets_same:
  "read_only h \<Longrightarrow> snd (store_widgets h node is g acc) = g"
proof (induction "is" arbitrary: acc)
  case Nil
  then show ?case by simp
next
  case (Cons i "is")
  show ?case
  proof (cases "serializeValue h (live g node) i")
    case None
    with Cons show ?thesis by simp
  next
    case (Some f)
    from Cons.prems Some have "snd (f g) = g"
      by (auto simp: read_only_def)
    with Cons Some show ?thesis
      by (cases "f g") (auto split: sum.splits)
  qed
qed

lemma record_link_same:
  assumes "read_only h"
  shows "snd (record_link h node i pp ll g acc) = g"
proof (cases ll)
  case None
  then show ?thesis by (simp add: record_link_def)
next
  case (Some l)
  show ?thesis
  proof (cases "case pp of None \<Rightarrow> None | Some p \<Rightarrow> updateLink h p")
    case None
    with Some show ?thesis by (simp add: record_link_def)
  next
    case f: (Some f)
    then obtain p where "pp = Some p" "updateLink h p = Some f"
      by (cases pp) auto
    with assms have "snd (f g l) = g"
      by (auto simp: read_only_def)
    with Some f show ?thesis
      by (cases "f g l") (auto simp: record_link_def split: sum.splits option.splits)
  qed
qed

lemma store_links_same:
  "read_only h \<Longrightarrow> store_links h node is g acc = Some (r, g') \<Longrightarrow> g' = g"
proof (induction "is" arbitrary: acc)
  case Nil
  then show ?case by simp
next
  case (Cons i "is")
  show ?case
  proof (cases "getInputNode g (live g node) i")
    case None
    with Cons show ?thesis by simp
  next
    case (Some parent)
    from Cons.prems(2) Some obtain b where
      b: "bypass_loop g (slot_type (inputs (live g node) ! i)) parent
            (getInputLink g (live g node) i) = Some b"
      by (auto split: option.splits)
    show ?thesis
    proof (cases b)
      case (Inl e)
      with Cons.prems Some b show ?thesis by simp
    next
      case (Inr pl)
      obtain pp ll where pl: "pl = (pp, ll)" by (cases pl)
      obtain x gx where x: "record_link h node i pp ll g acc = (x, gx)"
        by (cases "record_link h node i pp ll g acc")
      have gx: "gx = g"
        using record_link_same [OF Cons.prems(1), of node i pp ll g acc] x by simp
      show ?thesis
      proof (cases x)
        case (Inl e)
        with Cons.prems Some b Inr pl x gx show ?thesis by simp
      next
        case r: (Inr acc')
        with Cons.prems Some b Inr pl x gx have "store_links h node is g acc' = Some (r, g')"
          by simp
        from Cons.IH [OF Cons.prems(1) this] show ?thesis .
      qed
    qed
  qed
qed

lemma serialize_node_same:
  assumes "read_only h" and "serialize_node h node g out = Some (r, g')"
  shows "g' = g"
proof (cases "isVirtualNode node \<or> mode node = 2 \<or> mode node = 4")
  case True
  with assms(2) show ?thesis
    by (auto simp: serialize_node_def split: if_splits)
next
  case False
  obtain w gw where w: "store_widgets h node [0..<length (widgets node)] g ([], False) = (w, gw)"
    by (cases "store_widgets h node [0..<length (widgets node)] g ([], False)")
  have gw: "gw = g"
    using store_widgets_same [OF assms(1), of node "[0..<length (widgets node)]" g "([], False)"] w
    by simp
  show ?thesis
  proof (cases w)
    case (Inl e)
    with assms(2) False w gw show ?thesis
      by (simp add: serialize_node_def)
  next
    case (Inr acc)
    with assms(2) False w gw obtain x gx where
      x: "store_links h node [0..<length (inputs (live g node))] g acc = Some (x, gx)"
      and g': "g' = gx"
      by (auto simp: serialize_node_def split: option.splits sum.splits)
    from store_links_same [OF assms(1) x] g' show ?thesis by simp
  qed
qed

lemma serialize_nodes_same:
  "read_only h \<Longrightarrow> serialize_nodes h ns g out = Some (r, g') \<Longrightarrow> g' = g"
proof (induction ns arbitrary: out)
  case Nil
  then show ?case by simp
next
  case (Cons n ns)
  from Cons.prems(2) obtain x gx where x: "serialize_node h (live g n) g out = Some (x, gx)"
    by (auto split: option.splits)
  have gx: "gx = g" using serialize_node_same [OF Cons.prems(1) x] .
  show ?case
  proof (cases x)
    case (Inl e)
    with Cons.prems x gx show ?thesis by simp
  next
    case (Inr out')
    with Cons.prems x gx have "serialize_nodes h ns g out' = Some (r, g')" by simp
    from Cons.IH [OF Cons.prems(1) this] show ?thesis .
  qed
qed

lemma serialize_outer_same:
  "read_only h \<Longrightarrow> serialize_outer h is g out = Some (r, g') \<Longrightarrow> g' = g"
proof (induction "is" arbitrary: out)
  case Nil
  then show ?case by simp
next
  case (Cons i "is")
  show ?case
  proof (cases "getNodeById g i")
    case None
    with Cons show ?thesis by simp
  next
    case (Some outerNode)
    with Cons.prems(2) obtain x gx where
      x: "serialize_nodes h (compiled_nodes h g outerNode) g out = Some (x, gx)"
      by (auto split: option.splits)
    have gx: "gx = g" using serialize_nodes_same [OF Cons.prems(1) x] .
    show ?thesis
    proof (cases x)
      case (Inl e)
      with Cons.prems Some x gx show ?thesis by simp
    next
      case (Inr out')
      with Cons.prems Some x gx have "serialize_outer h is g out' = Some (r, g')" by simp
      from Cons.IH [OF Cons.prems(1) this] show ?thesis .
    qed
  qed
qed

text \<open>The first loop, for settled callbacks.\<close>

lemma fold_fixed: "(\<And>x. x \<in> set xs \<Longrightarrow> f x g = g) \<Longrightarrow> fold f xs g = g"
  by (induction xs) simp_all

lemma before_outer_update:
  assumes "\<forall>n. isVirtualNode n \<longrightarrow> applyToGraph h n = None"
  shows "before_outer h i g = update_node i queue_widgets g"
proof -
  have a: "\<And>n g'. apply_virtual h n g' = g'"
    using assms by (simp add: apply_virtual_def)
  have q: "(\<lambda>n. n\<lparr>widgets := map run_beforeQueued (widgets n)\<rparr>) = queue_widgets"
    by (simp add: queue_widgets_def fun_eq_iff)
  show ?thesis
    by (simp add: before_outer_def Let_def q fold_fixed a split: option.splits)
qed

lemma first_loop_update:
  assumes "\<forall>n. isVirtualNode n \<longrightarrow> applyToGraph h n = None"
  shows "fold (before_outer h) is g = fold (\<lambda>i. update_node i queue_widgets) is g"
proof -
  have "before_outer h = (\<lambda>i. update_node i queue_widgets)"
    using before_outer_update [OF assms] by (simp add: fun_eq_iff)
  then show ?thesis by simp
qed

lemma settled_node:
  "settled g \<Longrightarrow> n \<in> set (nodes g) \<Longrightarrow> queue_widgets (queue_widgets n) = queue_widgets n"
  by (simp add: settled_def queue_widgets_def)

lemma settled_update: "settled g \<Longrightarrow> settled (update_node i queue_widgets g)"
  by (auto simp: settled_def update_node_def queue_widgets_def)

lemma fold_update_settled:
  "settled g \<Longrightarrow>
     fold (\<lambda>i. update_node i queue_widgets) is g
       = g\<lparr>nodes := map (\<lambda>n. if node_id n \<in> set is then queue_widgets n else n) (nodes g)\<rparr>"
proof (induction "is" arbitrary: g)
  case Nil
  then show ?case by simp
next
  case (Cons i "is")
  have id: "\<And>n. node_id (queue_widgets n) = node_id n"
    by (simp add: queue_widgets_def)
  have "map (\<lambda>n. if node_id n \<in> set is then queue_widgets n else n)
          (map (\<lambda>n. if node_id n = i then queue_widgets n else n) (nodes g))
      = map (\<lambda>n. if node_id n \<in> set (i # is) then queue_widgets n else n) (nodes g)"
    using settled_node [OF Cons.prems] by (auto simp: id)
  with Cons.IH [OF settled_update [OF Cons.prems], of i] show ?case
    by (simp add: update_node_def)
qed

lemma first_loop_twice:
  assumes "settled g"
  shows "fold (\<lambda>i. update_node i queue_widgets) is (fold (\<lambda>i. update_node i queue_widgets) is g)
           = fold (\<lambda>i. update_node i queue_widgets) is g"
proof -
  let ?F = "\<lambda>n. if node_id n \<in> set is then queue_widgets n else n"
  have id: "\<And>n. node_id (queue_widgets n) = node_id n"
    by (simp add: queue_widgets_def)
  have s1: "settled (g\<lparr>nodes := map ?F (nodes g)\<rparr>)"
    using assms by (auto simp: settled_def queue_widgets_def)
  have "map ?F (map ?F (nodes g)) = map ?F (nodes g)"
    using settled_node [OF assms] by (auto simp: id)
  then show ?thesis
    by (simp add: fold_update_settled [OF assms] fold_update_settled [OF s1])
qed

text \<open>
  C8 (as amended). Let every \<open>beforeQueued\<close> callback of the graph be settled, no virtual
  node have \<open>applyToGraph\<close>, the callbacks \<open>serializeValue\<close> and \<open>updateLink\<close> be read-only,
  and the execution order of the graph that a compilation leaves be that of the graph it
  began with. Then compiling the graph that the compilation has left returns the same
  result: the same steps in the same order with the same inputs, or the same error,
  and the graph once more. (The graph that the first compilation leaves holds the values
  that the \<open>beforeQueued\<close> callbacks have produced; it need not be the graph before.)
\<close>

theorem graphToPrompt_twice:
  assumes st: "settled g"
    and nv: "\<forall>n. isVirtualNode n \<longrightarrow> applyToGraph h n = None"
    and ro: "read_only h"
    and c: "graphToPrompt h g = Some (g1, r)"
    and ord: "computeExecutionOrder h g1 = computeExecutionOrder h g"
  shows "graphToPrompt h g1 = Some (g1, r)"
proof -
  define ids where "ids = computeExecutionOrder h g"
  define ga where "ga = fold (\<lambda>i. update_node i queue_widgets) ids g"
  define K where "K x =
      (case serialize_outer h (computeExecutionOrder h x) x ([], None) of
         None \<Rightarrow> None
       | Some (Inl e, g2) \<Rightarrow> Some (g2, Inl e)
       | Some (Inr out, g2) \<Rightarrow>
           Some (g2, Inr \<lparr>prompt_workflow = graph_serialize x,
                          prompt_output = fst (cleanup out)\<rparr>))" for x
  have fl: "fold (before_outer h) ids g = ga"
    unfolding ga_def by (rule first_loop_update [OF nv])
  have E1: "graphToPrompt h g = K ga"
    using fl by (simp add: graphToPrompt_def Let_def K_def ids_def)
  with c have "K ga = Some (g1, r)" by simp
  then obtain x where
    x: "serialize_outer h (computeExecutionOrder h ga) ga ([], None) = Some (x, g1)"
    unfolding K_def by (auto split: option.splits sum.splits prod.splits)
  have g1: "g1 = ga"
    using serialize_outer_same [OF ro x] .
  have ord': "computeExecutionOrder h ga = ids"
    using ord g1 by (simp add: ids_def)
  have "fold (\<lambda>i. update_node i queue_widgets) ids ga = ga"
    unfolding ga_def by (rule first_loop_twice [OF st])
  then have again: "fold (before_outer h) (computeExecutionOrder h ga) ga = ga"
    using first_loop_update [OF nv, of ids ga] ord' by simp
  have E2: "graphToPrompt h ga = K ga"
    using again by (simp add: graphToPrompt_def Let_def K_def)
  from E1 E2 c g1 show ?thesis by simp
qed

lemma clamp_graph_compiles:
  "graphToPrompt plain_hooks (seed_graph (Some clamp) None 500)
     = Some (seed_graph (Some clamp) None 100, Inr (seed_prompt 100))"
  by (simp add: compile_eval graph_eval seed_graph_def seed_prompt_def)

text \<open>
  A seed widget whose \<open>beforeQueued\<close> limits the seed to 100: the first compilation
  changes the seed from 500 to 100, and the second returns what the first returned.
\<close>

theorem graphToPrompt_twice_witness:
  "graphToPrompt plain_hooks (seed_graph (Some clamp) None 500)
     = Some (seed_graph (Some clamp) None 100, Inr (seed_prompt 100)) \<and>
   graphToPrompt plain_hooks (seed_graph (Some clamp) None 100)
     = Some (seed_graph (Some clamp) None 100, Inr (seed_prompt 100))"
proof -
  have st: "settled (seed_graph (Some clamp) None 500)"
    by (simp add: settled_def seed_graph_def plain_node_def plain_widget_def run_beforeQueued_def)
  have nv: "\<forall>n. isVirtualNode n \<longrightarrow> applyToGraph plain_hooks n = None"
    by (simp add: plain_hooks_def)
  have ro: "read_only plain_hooks"
    by (simp add: read_only_def plain_hooks_def)
  have ord: "computeExecutionOrder plain_hooks (seed_graph (Some clamp) None 100)
      = computeExecutionOrder plain_hooks (seed_graph (Some clamp) None 500)"
    by (simp add: plain_hooks_def seed_graph_def plain_node_def)
  from graphToPrompt_twice [OF st nv ro clamp_graph_compiles ord] clamp_graph_compiles
  show ?thesis by simp
qed

lemma counting_compiles:
  "graphToPrompt counting_hooks ((seed_graph None None 5)\<lparr>outside := JNum v\<rparr>)
     = Some ((seed_graph None None 5)\<lparr>outside := JNum (v + 1)\<rparr>, Inr (seed_prompt v))"
  by (simp add: compile_eval graph_eval counting_hooks_def seed_graph_def seed_prompt_def)

lemma primitive_compiles:
  "graphToPrompt applying_hooks (primitive_graph v)
     = Some (primitive_graph (v + 1), Inr (primitive_prompt (v + 1)))"
  by (simp add: compile_eval graph_eval applying_hooks_def primitive_graph_def
      primitive_prompt_def)

text \<open>
  C8 as stated fails: \<open>graphToPrompt\<close> itself calls the \<open>beforeQueued\<close> callbacks. With a
  seed widget whose callback adds one, the graph after the first compilation holds the
  new seed, and two compilations in a row give outputs with different seeds. The same
  happens with a \<open>serializeValue\<close> that advances a counter outside the graph, and with a
  virtual node whose \<open>applyToGraph\<close> adds one to the seed.
\<close>

theorem graphToPrompt_twice_counterexample:
  "graphToPrompt plain_hooks (seed_graph (Some bump) None 0)
     = Some (seed_graph (Some bump) None 1, Inr (seed_prompt 1)) \<and>
   graphToPrompt plain_hooks (seed_graph (Some bump) None 1)
     = Some (seed_graph (Some bump) None 2, Inr (seed_prompt 2)) \<and>
   prompt_output (seed_prompt 1) \<noteq> prompt_output (seed_prompt 2) \<and>
   graphToPrompt counting_hooks ((seed_graph None None 5)\<lparr>outside := JNum 0\<rparr>)
     = Some ((seed_graph None None 5)\<lparr>outside := JNum 1\<rparr>, Inr (seed_prompt 0)) \<and>
   graphToPrompt counting_hooks ((seed_graph None None 5)\<lparr>outside := JNum 1\<rparr>)
     = Some ((seed_graph None None 5)\<lparr>outside := JNum 2\<rparr>, Inr (seed_prompt 1)) \<and>
   prompt_output (seed_prompt 0) \<noteq> prompt_output (seed_prompt 1) \<and>
   graphToPrompt applying_hooks (primitive_graph 0)
     = Some (primitive_graph 1, Inr (primitive_prompt 1)) \<and>
   graphToPrompt applying_hooks (primitive_graph 1)
     = Some (primitive_graph 2, Inr (primitive_prompt 2)) \<and>
   prompt_output (primitive_prompt 1) \<noteq> prompt_output (primitive_prompt 2)"
  using seed_graph_before_compiles [of None 0] seed_graph_before_compiles [of None 1]
    counting_compiles [of 0] counting_compiles [of 1]
    primitive_compiles [of 0] primitive_compiles [of 1]
  by (simp add: seed_prompt_def primitive_prompt_def)

section \<open>Theorems about queuePrompt\<close>

subsection \<open>Units of a batch\<close>

lemma arrivals_flag:
  "processingQueue s \<Longrightarrow> arrivals calls s = Some (s\<lparr>queueItems := queueItems s @ calls\<rparr>)"
  by (induction calls arbitrary: s) (simp_all add: arrive_def)

lemma await_flag:
  "processingQueue s \<Longrightarrow>
     await s sched = Some (s\<lparr>queueItems := queueItems s @ arriving sched\<rparr>, tl sched)"
  by (simp add: await_def arriving_def arrivals_flag split: list.splits)

lemma arriving_take: "arriving sched = concat (take 1 sched)"
  by (cases sched) (simp_all add: arriving_def)

text \<open>One unit whose submission is rejected.\<close>

lemma rejected_unit:
  assumes f: "processingQueue s"
    and c: "graphToPrompt (q_hooks env) (app_graph s) = Some (g1, Inr p)"
    and r: "backend env (length (submitted s)) n p = Rejected err"
  shows "batch_loop env n (Suc k) s sched =
     Some (fst (on_rejected err
                  (s\<lparr>app_graph := g1, submitted := submitted s @ [(n, p)],
                     queueItems := queueItems s @ concat (take 2 sched)\<rparr>)),
           snd (on_rejected err
                  (s\<lparr>app_graph := g1, submitted := submitted s @ [(n, p)],
                     queueItems := queueItems s @ concat (take 2 sched)\<rparr>)),
           drop 2 sched)"
proof -
  let ?s1 = "s\<lparr>app_graph := g1, queueItems := queueItems s @ arriving sched\<rparr>"
  have a1: "await (s\<lparr>app_graph := g1\<rparr>) sched = Some (?s1, tl sched)"
    using f by (simp add: await_flag)
  let ?s2 = "?s1\<lparr>submitted := submitted s @ [(n, p)],
      queueItems := queueItems ?s1 @ arriving (tl sched)\<rparr>"
  have a2: "await (?s1\<lparr>submitted := submitted ?s1 @ [(n, p)]\<rparr>) (tl sched) = Some (?s2, tl (tl sched))"
    using f by (simp add: await_flag)
  have q: "arriving sched @ arriving (tl sched) = concat (take 2 sched)"
    by (cases sched; cases "tl sched") (auto simp: arriving_def)
  have d: "tl (tl sched) = drop 2 sched"
    by (cases sched; cases "tl sched") auto
  have "?s2 = s\<lparr>app_graph := g1, submitted := submitted s @ [(n, p)],
            queueItems := queueItems s @ concat (take 2 sched)\<rparr>"
    using q by simp
  with c a1 a2 r d show ?thesis
    by simp
qed

text \<open>One unit whose submission is accepted.\<close>

lemma accepted_unit:
  assumes f: "processingQueue s"
    and c: "graphToPrompt (q_hooks env) (app_graph s) = Some (g1, Inr p)"
    and r: "backend env (length (submitted s)) n p = Accepted errs"
  shows "batch_loop env n (Suc k) s sched =
     batch_loop env n k
       (s\<lparr>app_graph := after_unit p g1, submitted := submitted s @ [(n, p)],
          lastNodeErrors := errs, queueItems := queueItems s @ concat (take 3 sched)\<rparr>)
       (drop 3 sched)"
proof -
  let ?s1 = "s\<lparr>app_graph := g1, queueItems := queueItems s @ arriving sched\<rparr>"
  have a1: "await (s\<lparr>app_graph := g1\<rparr>) sched = Some (?s1, tl sched)"
    using f by (simp add: await_flag)
  let ?s2 = "?s1\<lparr>submitted := submitted s @ [(n, p)],
      queueItems := queueItems ?s1 @ arriving (tl sched)\<rparr>"
  have a2: "await (?s1\<lparr>submitted := submitted ?s1 @ [(n, p)]\<rparr>) (tl sched) = Some (?s2, tl (tl sched))"
    using f by (simp add: await_flag)
  let ?s3 = "(on_accepted errs p ?s2)\<lparr>queueItems := queueItems ?s2 @ arriving (tl (tl sched))\<rparr>"
  have a3: "await (on_accepted errs p ?s2) (tl (tl sched)) = Some (?s3, tl (tl (tl sched)))"
    using f by (simp add: await_flag on_accepted_def)
  have q: "arriving sched @ arriving (tl sched) @ arriving (tl (tl sched)) = concat (take 3 sched)"
    by (cases sched; cases "tl sched"; cases "tl (tl sched)") (auto simp: arriving_def)
  have d: "tl (tl (tl sched)) = drop 3 sched"
    by (cases sched; cases "tl sched"; cases "tl (tl sched)") auto
  have "?s3 = s\<lparr>app_graph := after_unit p g1, submitted := submitted s @ [(n, p)],
          lastNodeErrors := errs, queueItems := queueItems s @ concat (take 3 sched)\<rparr>"
    using q by (simp add: on_accepted_def)
  with c a1 a2 a3 r d show ?thesis
    by simp
qed

text \<open>One unit whose compilation throws.\<close>

lemma throwing_unit:
  assumes f: "processingQueue s"
    and c: "graphToPrompt (q_hooks env) (app_graph s) = Some (g1, Inl e)"
  shows "batch_loop env n (Suc k) s sched =
     Some (Threw e, s\<lparr>app_graph := g1, queueItems := queueItems s @ concat (take 1 sched)\<rparr>,
       drop 1 sched)"
  using f c by (simp add: await_flag arriving_take drop_Suc)

text \<open>Inside a drain the flag stays set, so no second drain starts.\<close>

lemma batch_loop_flag:
  "processingQueue s \<Longrightarrow> batch_loop env n k s sched = Some (oc, s', sched') \<Longrightarrow>
     oc \<noteq> Overlap \<and> processingQueue s'"
proof (induction k arbitrary: s sched)
  case 0
  then show ?case by auto
next
  case (Suc k)
  from Suc.prems obtain g1 r where c: "graphToPrompt (q_hooks env) (app_graph s) = Some (g1, r)"
    by (auto split: option.splits)
  show ?case
  proof (cases r)
    case (Inl e)
    with Suc.prems c throwing_unit [of s env g1 e n k sched] show ?thesis by auto
  next
    case (Inr p)
    show ?thesis
    proof (cases "backend env (length (submitted s)) n p")
      case (Rejected err)
      with Suc.prems c Inr rejected_unit [of s env g1 p n err k sched] show ?thesis
        by (auto simp del: batch_loop.simps simp add: on_rejected_keeps)
    next
      case (Accepted errs)
      with Suc.prems c Inr accepted_unit [of s env g1 p n errs k sched]
      have "batch_loop env n k
          (s\<lparr>app_graph := after_unit p g1, submitted := submitted s @ [(n, p)],
             lastNodeErrors := errs, queueItems := queueItems s @ concat (take 3 sched)\<rparr>)
          (drop 3 sched) = Some (oc, s', sched')"
        by simp
      from Suc.IH [OF _ this] Suc.prems(1) show ?thesis by simp
    qed
  qed
qed

lemma drain_flag:
  "processingQueue s \<Longrightarrow> drain env s sched = Some (oc, s', sched') \<Longrightarrow>
     oc \<noteq> Overlap \<and> processingQueue s' \<and> (oc = Done \<longrightarrow> queueItems s' = [])"
proof (induction env s sched rule: drain.induct)
  case (1 env s sched)
  show ?case
  proof (cases "queueItems s = []")
    case True
    with "1.prems" show ?thesis by auto
  next
    case False
    let ?b = "batch_loop env (number (last (queueItems s)))
                (nat (batchCount (last (queueItems s))))
                (s\<lparr>queueItems := butlast (queueItems s)\<rparr>) sched"
    from "1.prems" False obtain oc1 s1 sched1 where b: "?b = Some (oc1, s1, sched1)"
      by (cases ?b) auto
    have fl: "oc1 \<noteq> Overlap \<and> processingQueue s1"
      using batch_loop_flag [OF _ b] "1.prems"(1) by simp
    show ?thesis
    proof (cases oc1)
      case Done
      with "1.prems" False b have d: "drain env s1 sched1 = Some (oc, s', sched')"
        by simp
      from "1.IH" False b Done d fl show ?thesis
        by auto
    next
      case (Threw e)
      with "1.prems" False b fl show ?thesis by auto
    next
      case Overlap
      with fl show ?thesis by simp
    qed
  qed
qed

lemma queuePrompt_busy:
  "processingQueue s \<Longrightarrow>
     queuePrompt env n b s sched
       = Some (Done, s\<lparr>queueItems := queueItems s @ [\<lparr>number = n, batchCount = b\<rparr>]\<rparr>, sched)"
  by (simp add: queuePrompt_def)

lemma queuePrompt_idle:
  assumes i: "\<not> processingQueue s" and q: "queuePrompt env n b s sched = Some (oc, s', sched')"
  shows "oc \<noteq> Overlap \<and> \<not> processingQueue s' \<and> (oc = Done \<longrightarrow> queueItems s' = [])"
proof -
  let ?s1 = "s\<lparr>queueItems := queueItems s @ [\<lparr>number = n, batchCount = b\<rparr>],
               processingQueue := True, lastNodeErrors := None\<rparr>"
  from i q obtain oc2 s2 sched2 where d: "drain env ?s1 sched = Some (oc2, s2, sched2)"
    by (cases "drain env ?s1 sched") (auto simp: queuePrompt_def)
  from drain_flag [OF _ d] have fl: "oc2 \<noteq> Overlap" "oc2 = Done \<longrightarrow> queueItems s2 = []"
    by simp_all
  from i q d fl show ?thesis
    by (cases oc2) (auto simp: queuePrompt_def)
qed

subsection \<open>Runs of the examples\<close>

lemma on_rejected_bad_seed:
  "on_rejected bad_seed s
     = (Done, s\<lparr>dialogs := dialogs s @ [bad_seed_shown], lastNodeErrors := Some seed_errors\<rparr>)"
  by (simp add: on_rejected_def formatPromptError_def bad_seed_def bad_seed_shown_def
      seed_errors_def)

lemma on_rejected_bare:
  "on_rejected bare_response s = (Threw TypeError, s)"
  by (simp add: on_rejected_def formatPromptError_def bare_response_def)

lemma after_unit_seed_none:
  "after_unit (seed_prompt v) (seed_graph b None w) = seed_graph b None w"
  by (simp add: after_unit_def seed_prompt_def seed_graph_def update_node_def run_afterQueued_def
      plain_node_def plain_widget_def)

lemma after_unit_seed_bump:
  "after_unit (seed_prompt v) (seed_graph b (Some bump) w) = seed_graph b (Some bump) (w + 1)"
  by (simp add: after_unit_def seed_prompt_def seed_graph_def update_node_def run_afterQueued_def
      plain_node_def plain_widget_def)

lemmas queue_eval = queuePrompt_def idle_def accepting_def rejecting_def garbling_def request_def
  await_def arrive_def on_accepted_def on_rejected_bad_seed on_rejected_bare eval_nat_numeral

lemma two_calls_run:
  "queuePrompt accepting 0 1 (idle (seed_graph None None 5)) [[request 1 2]] =
     Some (Done,
       (idle (seed_graph None None 5))
         \<lparr>submitted := [(0, seed_prompt 5), (1, seed_prompt 5), (1, seed_prompt 5)]\<rparr>, [])"
  by (simp add: queue_eval seed_graph_compiles after_unit_seed_none)

lemma orphan_run:
  "queuePrompt accepting 0 1 (idle orphan_graph) [[request 1 1]] =
     Some (Threw TypeError, (idle orphan_graph)\<lparr>queueItems := [request 1 1]\<rparr>, [])"
  by (simp add: queue_eval orphan_graph_throws)

subsection \<open>One drain at a time\<close>

text \<open>
  C3 (as amended). A call made while a drain is in progress appends its request to the
  pending list and returns, with nothing else changed. A call that finds the flag clear
  never has a second drain start beside its own, and when it returns, the flag is
  released, whether the loop ended or an error came out of it; when the loop ended, the
  pending list is empty.
\<close>

theorem queuePrompt_single_flight:
  "(processingQueue s \<longrightarrow>
      queuePrompt env n b s sched =
        Some (Done, s\<lparr>queueItems := queueItems s @ [\<lparr>number = n, batchCount = b\<rparr>]\<rparr>, sched)) \<and>
   (\<not> processingQueue s \<and> queuePrompt env n b s sched = Some (oc, s', sched') \<longrightarrow>
      oc \<noteq> Overlap \<and> \<not> processingQueue s' \<and> (oc = Done \<longrightarrow> queueItems s' = []))"
  using queuePrompt_busy [of s env n b sched] queuePrompt_idle [of s env n b sched oc s' sched']
  by blast

text \<open>
  A call during a drain, and a call at rest during whose drain a second request for two
  units arrives.
\<close>

theorem queuePrompt_single_flight_witness:
  "queuePrompt accepting 1 2 ((idle (seed_graph None None 5))\<lparr>processingQueue := True\<rparr>) [] =
     Some (Done,
       (idle (seed_graph None None 5))\<lparr>processingQueue := True, queueItems := [request 1 2]\<rparr>, []) \<and>
   queuePrompt accepting 0 1 (idle (seed_graph None None 5)) [[request 1 2]] =
     Some (Done,
       (idle (seed_graph None None 5))
         \<lparr>submitted := [(0, seed_prompt 5), (1, seed_prompt 5), (1, seed_prompt 5)]\<rparr>, []) \<and>
   \<not> processingQueue ((idle (seed_graph None None 5))
         \<lparr>submitted := [(0, seed_prompt 5), (1, seed_prompt 5), (1, seed_prompt 5)]\<rparr>) \<and>
   queueItems ((idle (seed_graph None None 5))
         \<lparr>submitted := [(0, seed_prompt 5), (1, seed_prompt 5), (1, seed_prompt 5)]\<rparr>) = []"
proof -
  have busy: "processingQueue ((idle (seed_graph None None 5))\<lparr>processingQueue := True\<rparr>)"
    by simp
  have idle: "\<not> processingQueue (idle (seed_graph None None 5))"
    by (simp add: idle_def)
  from busy
    queuePrompt_single_flight [where s = "(idle (seed_graph None None 5))\<lparr>processingQueue := True\<rparr>"
      and env = accepting and n = 1 and b = 2 and sched = "[]"]
  have a: "queuePrompt accepting 1 2 ((idle (seed_graph None None 5))\<lparr>processingQueue := True\<rparr>) [] =
     Some (Done,
       (idle (seed_graph None None 5))\<lparr>processingQueue := True, queueItems := [request 1 2]\<rparr>, [])"
    by (simp add: idle_def request_def)
  from idle two_calls_run
    queuePrompt_single_flight [where s = "idle (seed_graph None None 5)"
      and env = accepting and n = 0 and b = 1 and sched = "[[request 1 2]]" and oc = Done
      and s' = "(idle (seed_graph None None 5))
         \<lparr>submitted := [(0, seed_prompt 5), (1, seed_prompt 5), (1, seed_prompt 5)]\<rparr>"
      and sched' = "[]"]
  have b: "\<not> processingQueue ((idle (seed_graph None None 5))
         \<lparr>submitted := [(0, seed_prompt 5), (1, seed_prompt 5), (1, seed_prompt 5)]\<rparr>) \<and>
   queueItems ((idle (seed_graph None None 5))
         \<lparr>submitted := [(0, seed_prompt 5), (1, seed_prompt 5), (1, seed_prompt 5)]\<rparr>) = []"
    by blast
  from a b two_calls_run show ?thesis by blast
qed

text \<open>
  C3 as stated fails: when \<open>graphToPrompt\<close> throws, the flag is released while a request
  is still pending. Two calls are made one after the other on a graph whose bypassed
  node has a link from a node that does not exist; the second call arrives while the
  first one is suspended.
\<close>

theorem queuePrompt_release_counterexample:
  "queuePrompt accepting 0 1 (idle orphan_graph) [[request 1 1]] =
     Some (Threw TypeError, (idle orphan_graph)\<lparr>queueItems := [request 1 1]\<rparr>, []) \<and>
   \<not> processingQueue ((idle orphan_graph)\<lparr>queueItems := [request 1 1]\<rparr>) \<and>
   queueItems ((idle orphan_graph)\<lparr>queueItems := [request 1 1]\<rparr>) \<noteq> []"
  using orphan_run by (simp add: idle_def)

subsection \<open>A rejected submission\<close>

text \<open>How the \<open>catch\<close> block is left, and what it has shown when it is left by \<open>break\<close>.\<close>

lemma on_rejected_outcome:
  "fst (on_rejected err s) = Done \<or> fst (on_rejected err s) = Threw TypeError"
  by (auto simp: on_rejected_def formatPromptError_def
      split: sum.splits prompt_error.splits option.splits)

lemma on_rejected_break:
  assumes "err \<noteq> ErrNull" and "formatPromptError err = Inr shown"
  shows "on_rejected err s =
           (Done, s\<lparr>dialogs := dialogs s @ [shown],
                    lastNodeErrors :=
                      (case err of ErrObject t (Some r) \<Rightarrow> resp_node_errors r
                       | _ \<Rightarrow> lastNodeErrors s)\<rparr>)"
  using assms by (auto simp: on_rejected_def split: prompt_error.splits option.splits)

lemma on_rejected_shown:
  "fst (on_rejected err s) = Done \<Longrightarrow> dialogs (snd (on_rejected err s)) \<noteq> dialogs s"
  by (auto simp: on_rejected_def split: sum.splits prompt_error.splits option.splits)

text \<open>A batch whose first \<open>j\<close> units are accepted goes on from the state after them.\<close>

lemma batch_loop_split:
  assumes "processingQueue s"
    and "batch_loop env n j s sched = Some (Done, sj, schedj)"
    and "dialogs sj = dialogs s"
  shows "batch_loop env n (j + m) s sched = batch_loop env n m sj schedj \<and>
         length (submitted sj) = length (submitted s) + j \<and> processingQueue sj \<and>
         queueItems sj = queueItems s @ concat (take (3 * j) sched) \<and> schedj = drop (3 * j) sched"
  using assms
proof (induction j arbitrary: s sched)
  case 0
  then show ?case by simp
next
  case (Suc j)
  from Suc.prems(2) obtain g1 r where c: "graphToPrompt (q_hooks env) (app_graph s) = Some (g1, r)"
    by (auto split: option.splits)
  show ?case
  proof (cases r)
    case (Inl e)
    with throwing_unit [OF Suc.prems(1), of env g1 e n j sched] c Suc.prems(2) show ?thesis by simp
  next
    case (Inr p)
    show ?thesis
    proof (cases "backend env (length (submitted s)) n p")
      case (Rejected err)
      let ?x = "s\<lparr>app_graph := g1, submitted := submitted s @ [(n, p)],
                  queueItems := queueItems s @ concat (take 2 sched)\<rparr>"
      from rejected_unit [OF Suc.prems(1) c [unfolded Inr] Rejected, of j sched] Suc.prems(2)
      have "fst (on_rejected err ?x) = Done" and "snd (on_rejected err ?x) = sj"
        by (simp_all del: batch_loop.simps)
      with on_rejected_shown [of err ?x] Suc.prems(3) show ?thesis by simp
    next
      case (Accepted errs)
      let ?s3 = "s\<lparr>app_graph := after_unit p g1, submitted := submitted s @ [(n, p)],
                   lastNodeErrors := errs, queueItems := queueItems s @ concat (take 3 sched)\<rparr>"
      note u = accepted_unit [OF Suc.prems(1) c [unfolded Inr] Accepted]
      from u [of j sched] Suc.prems(2)
      have r: "batch_loop env n j ?s3 (drop 3 sched) = Some (Done, sj, schedj)" by simp
      have f: "processingQueue ?s3" using Suc.prems(1) by simp
      have d: "dialogs sj = dialogs ?s3" using Suc.prems(3) by simp
      have t: "take (3 * Suc j) sched = take 3 sched @ take (3 * j) (drop 3 sched)"
        using take_add [of 3 "3 * j" sched] by simp
      have e: "batch_loop env n (Suc j + m) s sched = batch_loop env n (j + m) ?s3 (drop 3 sched)"
        using u [of "j + m" sched] by (simp del: batch_loop.simps)
      from Suc.IH [OF f r d] e t show ?thesis
        by (simp del: batch_loop.simps add: ac_simps)
    qed
  qed
qed

text \<open>
  C4 (as amended). In a batch of \<open>j + 1 + k\<close> units whose first \<open>j\<close> submissions are
  accepted, let the next submission be rejected with an error that is not \<open>null\<close> or
  \<open>undefined\<close> and that \<open>#formatPromptError\<close> formats. Then the batch ends there, with
  \<open>j + 1\<close> submissions made and none of the \<open>k\<close> remaining units attempted; the text of
  the error is shown, and the node errors of its response, when it has one, become
  \<open>lastNodeErrors\<close>; the requests that were pending are still pending, and the drain loop
  goes on with them. (That the first \<open>j\<close> units were accepted is said by the run of \<open>j\<close>
  units ending with no error shown.)
\<close>

theorem rejected_unit_aborts_batch:
  assumes "processingQueue s"
    and "batch_loop env n j s sched = Some (Done, sj, schedj)"
    and "dialogs sj = dialogs s"
    and "graphToPrompt (q_hooks env) (app_graph sj) = Some (g1, Inr p)"
    and "backend env (length (submitted sj)) n p = Rejected err"
    and "err \<noteq> ErrNull"
    and "formatPromptError err = Inr shown"
  shows "\<exists>s'. batch_loop env n (j + Suc k) s sched = Some (Done, s', drop (3 * j + 2) sched) \<and>
           submitted s' = submitted sj @ [(n, p)] \<and>
           length (submitted s') = length (submitted s) + Suc j \<and>
           dialogs s' = dialogs s @ [shown] \<and>
           lastNodeErrors s' =
             (case err of ErrObject t (Some r) \<Rightarrow> resp_node_errors r
              | _ \<Rightarrow> lastNodeErrors sj) \<and>
           queueItems s' = queueItems s @ concat (take (3 * j + 2) sched) \<and>
           drain env (s\<lparr>queueItems := queueItems s @ [\<lparr>number = n, batchCount = int (j + Suc k)\<rparr>]\<rparr>)
               sched
             = drain env s' (drop (3 * j + 2) sched)"
proof -
  let ?x = "sj\<lparr>app_graph := g1, submitted := submitted sj @ [(n, p)],
               queueItems := queueItems sj @ concat (take 2 schedj)\<rparr>"
  let ?s' = "?x\<lparr>dialogs := dialogs ?x @ [shown],
               lastNodeErrors :=
                 (case err of ErrObject t (Some r) \<Rightarrow> resp_node_errors r
                  | _ \<Rightarrow> lastNodeErrors ?x)\<rparr>"
  have rj: "on_rejected err ?x = (Done, ?s')"
    by (rule on_rejected_break [OF assms(6,7)])
  note sp = batch_loop_split [OF assms(1,2,3), of "Suc k"]
  from sp have fl: "processingQueue sj" by simp
  have t: "take (3 * j + 2) sched = take (3 * j) sched @ take 2 (drop (3 * j) sched)"
    using take_add [of "3 * j" 2 sched] by simp
  from sp have e: "batch_loop env n (j + Suc k) s sched = batch_loop env n (Suc k) sj schedj"
    and sd: "schedj = drop (3 * j) sched"
    by (simp_all del: batch_loop.simps)
  have b: "batch_loop env n (j + Suc k) s sched = Some (Done, ?s', drop (3 * j + 2) sched)"
    using e sd rejected_unit [OF fl assms(4,5), of k schedj] rj
    by (simp del: batch_loop.simps add: ac_simps)
  have q: "queueItems ?s' = queueItems s @ concat (take (3 * j + 2) sched)"
    using sp t by simp
  have d: "drain env (s\<lparr>queueItems := queueItems s @ [\<lparr>number = n, batchCount = int (j + Suc k)\<rparr>]\<rparr>)
               sched = drain env ?s' (drop (3 * j + 2) sched)"
    using b by (subst drain.simps) (simp del: batch_loop.simps drain.simps of_nat_add of_nat_Suc)
  from sp have l: "length (submitted ?s') = length (submitted s) + Suc j"
    by simp
  have o: "submitted ?s' = submitted sj @ [(n, p)]" "dialogs ?s' = dialogs s @ [shown]"
    "lastNodeErrors ?s' =
       (case err of ErrObject t (Some r) \<Rightarrow> resp_node_errors r | _ \<Rightarrow> lastNodeErrors sj)"
    using assms(3) by (simp_all split: prompt_error.splits option.splits)
  from b q d l o show ?thesis by blast
qed

text \<open>
  A batch of three whose second submission is rejected, with a request of priority 7
  pending: two submissions are made, and the drain goes on to submit the pending request.
\<close>

theorem rejected_unit_aborts_batch_witness:
  "batch_loop (rejecting 1) 0 3 busy_state [] =
     Some (Done,
       busy_state\<lparr>app_graph := seed_graph None (Some bump) 6,
                  submitted := [(0, seed_prompt 5), (0, seed_prompt 6)],
                  dialogs := [bad_seed_shown],
                  lastNodeErrors := Some seed_errors\<rparr>, []) \<and>
   drain (rejecting 1) (busy_state\<lparr>queueItems := [request 7 1, request 0 3]\<rparr>) [] =
     Some (Done,
       busy_state\<lparr>app_graph := seed_graph None (Some bump) 7,
                  submitted := [(0, seed_prompt 5), (0, seed_prompt 6), (7, seed_prompt 6)],
                  dialogs := [bad_seed_shown], lastNodeErrors := None, queueItems := []\<rparr>, [])"
proof -
  let ?sj = "busy_state\<lparr>app_graph := seed_graph None (Some bump) 6,
                        submitted := [(0, seed_prompt 5)]\<rparr>"
  let ?s' = "busy_state\<lparr>app_graph := seed_graph None (Some bump) 6,
                  submitted := [(0, seed_prompt 5), (0, seed_prompt 6)],
                  dialogs := [bad_seed_shown],
                  lastNodeErrors := Some seed_errors\<rparr>"
  have h1: "processingQueue busy_state"
    by (simp add: busy_state_def)
  have h2: "batch_loop (rejecting 1) 0 1 busy_state [] = Some (Done, ?sj, [])"
    by (simp add: busy_state_def queue_eval seed_graph_compiles after_unit_seed_bump)
  have h3: "dialogs ?sj = dialogs busy_state"
    by simp
  have h4: "graphToPrompt (q_hooks (rejecting 1)) (app_graph ?sj)
              = Some (seed_graph None (Some bump) 6, Inr (seed_prompt 6))"
    by (simp add: rejecting_def seed_graph_compiles)
  have h5: "backend (rejecting 1) (length (submitted ?sj)) 0 (seed_prompt 6) = Rejected bad_seed"
    by (simp add: rejecting_def)
  have h6: "bad_seed \<noteq> ErrNull"
    by (simp add: bad_seed_def)
  have h7: "formatPromptError bad_seed = Inr bad_seed_shown"
    by (simp add: formatPromptError_def bad_seed_def bad_seed_shown_def seed_errors_def)
  have ev: "batch_loop (rejecting 1) 0 3 busy_state [] = Some (Done, ?s', [])"
    by (simp add: busy_state_def queue_eval seed_graph_compiles after_unit_seed_bump)
  from rejected_unit_aborts_batch [OF h1 h2 h3 h4 h5 h6 h7, of 1] ev
  have d: "drain (rejecting 1)
             (busy_state\<lparr>queueItems := queueItems busy_state @ [\<lparr>number = 0, batchCount = int (1 + Suc 1)\<rparr>]\<rparr>) []
           = drain (rejecting 1) ?s' []"
    by (auto simp del: batch_loop.simps drain.simps simp add: eval_nat_numeral)
  have q: "busy_state\<lparr>queueItems := queueItems busy_state @ [\<lparr>number = 0, batchCount = int (1 + Suc 1)\<rparr>]\<rparr>
           = busy_state\<lparr>queueItems := [request 7 1, request 0 3]\<rparr>"
    by (simp add: busy_state_def request_def)
  have r: "drain (rejecting 1) ?s' [] =
     Some (Done,
       busy_state\<lparr>app_graph := seed_graph None (Some bump) 7,
                  submitted := [(0, seed_prompt 5), (0, seed_prompt 6), (7, seed_prompt 6)],
                  dialogs := [bad_seed_shown], lastNodeErrors := None, queueItems := []\<rparr>, [])"
    by (simp add: busy_state_def queue_eval seed_graph_compiles after_unit_seed_bump)
  from ev d [unfolded q] r show ?thesis by (simp only: simp_thms)
qed

text \<open>
  C4 as stated fails for a rejection whose response has \<open>node_errors\<close> and no \<open>error\<close>:
  \<open>#formatPromptError\<close> throws inside the \<open>catch\<close> block. Nothing is shown, the node errors
  are not recorded, and the error leaves the drain loop with the request of priority 7,
  which arrived meanwhile, still pending.
\<close>

theorem rejected_unit_counterexample:
  "queuePrompt garbling 0 3 (idle (seed_graph None None 5)) [[request 7 1]] =
     Some (Threw TypeError,
       (idle (seed_graph None None 5))
         \<lparr>submitted := [(0, seed_prompt 5)], queueItems := [request 7 1]\<rparr>, []) \<and>
   dialogs ((idle (seed_graph None None 5))
         \<lparr>submitted := [(0, seed_prompt 5)], queueItems := [request 7 1]\<rparr>) = [] \<and>
   lastNodeErrors ((idle (seed_graph None None 5))
         \<lparr>submitted := [(0, seed_prompt 5)], queueItems := [request 7 1]\<rparr>) = None"
proof -
  have "queuePrompt garbling 0 3 (idle (seed_graph None None 5)) [[request 7 1]] =
     Some (Threw TypeError,
       (idle (seed_graph None None 5))
         \<lparr>submitted := [(0, seed_prompt 5)], queueItems := [request 7 1]\<rparr>, [])"
    by (simp add: queue_eval seed_graph_compiles after_unit_seed_none)
  then show ?thesis
    by (simp add: idle_def)
qed

subsection \<open>afterQueued between the units of a batch\<close>

lemma graphToPrompt_workflow:
  assumes "read_only h" and "graphToPrompt h g = Some (g1, Inr p)"
  shows "prompt_workflow p = map node_id (nodes g1)"
proof -
  let ?ga = "fold (before_outer h) (computeExecutionOrder h g) g"
  from assms(2) obtain x where
    x: "serialize_outer h (computeExecutionOrder h ?ga) ?ga ([], None) = Some (x, g1)"
    and p: "prompt_workflow p = graph_serialize ?ga"
    by (auto simp: graphToPrompt_def Let_def split: option.splits sum.splits prod.splits)
  from serialize_outer_same [OF assms(1) x] p show ?thesis
    by (simp add: graph_serialize_def)
qed

lemma fold_update_nodes:
  assumes "\<And>n. node_id (f n) = node_id n" and "distinct is"
  shows "fold (\<lambda>i. update_node i f) is g =
           g\<lparr>nodes := map (\<lambda>n. if node_id n \<in> set is then f n else n) (nodes g)\<rparr>"
  using assms(2)
proof (induction "is" arbitrary: g)
  case Nil
  then show ?case by simp
next
  case (Cons i "is")
  then show ?case using assms(1) by (auto simp: update_node_def)
qed

lemma after_unit_all:
  assumes "distinct (prompt_workflow p)"
  shows "after_unit p g1 =
           g1\<lparr>nodes :=
                 map (\<lambda>n. if node_id n \<in> set (prompt_workflow p)
                          then n\<lparr>widgets := map run_afterQueued (widgets n)\<rparr> else n)
                   (nodes g1)\<rparr>"
  unfolding after_unit_def by (rule fold_update_nodes) (simp_all add: assms)

text \<open>
  C6 (as amended). When a unit's submission is accepted, \<open>afterQueued\<close> of every widget
  of every node that the serialized workflow names (each once) has run before the rest
  of the batch is compiled; these are all nodes of the graph when the callbacks of the
  compilation are read-only. When the submission is rejected, the batch ends, by the
  \<open>break\<close> of the \<open>catch\<close> block when the error is not \<open>null\<close> or \<open>undefined\<close> and can be
  formatted, else by a \<open>TypeError\<close>, with the graph as the compilation left it: no
  \<open>afterQueued\<close> callback runs.
\<close>

theorem afterQueued_between_units:
  assumes "processingQueue s"
    and "graphToPrompt (q_hooks env) (app_graph s) = Some (g1, Inr p)"
    and "distinct (prompt_workflow p)"
  shows "(backend env (length (submitted s)) n p = Accepted errs \<longrightarrow>
            batch_loop env n (Suc k) s sched =
              batch_loop env n k
                (s\<lparr>app_graph :=
                      g1\<lparr>nodes :=
                            map (\<lambda>n. if node_id n \<in> set (prompt_workflow p)
                                     then n\<lparr>widgets := map run_afterQueued (widgets n)\<rparr> else n)
                              (nodes g1)\<rparr>,
                    submitted := submitted s @ [(n, p)], lastNodeErrors := errs,
                    queueItems := queueItems s @ concat (take 3 sched)\<rparr>)
                (drop 3 sched)) \<and>
         (read_only (q_hooks env) \<longrightarrow> prompt_workflow p = map node_id (nodes g1)) \<and>
         (backend env (length (submitted s)) n p = Rejected err \<longrightarrow>
            (\<exists>oc s'. batch_loop env n (Suc k) s sched = Some (oc, s', drop 2 sched) \<and>
                  (oc = Done \<or> oc = Threw TypeError) \<and>
                  (err \<noteq> ErrNull \<and> formatPromptError err \<noteq> Inl TypeError \<longrightarrow> oc = Done) \<and>
                  app_graph s' = g1))"
proof -
  let ?x = "s\<lparr>app_graph := g1, submitted := submitted s @ [(n, p)],
              queueItems := queueItems s @ concat (take 2 sched)\<rparr>"
  have d: "err \<noteq> ErrNull \<and> formatPromptError err \<noteq> Inl TypeError \<longrightarrow>
      fst (on_rejected err ?x) = Done"
    by (auto simp: on_rejected_def formatPromptError_def
        split: sum.splits prompt_error.splits option.splits)
  show ?thesis
    using accepted_unit [OF assms(1,2), of n errs k sched]
      rejected_unit [OF assms(1,2), of n err k sched] after_unit_all [OF assms(3), of g1]
      graphToPrompt_workflow [OF _ assms(2)] on_rejected_outcome [of err ?x] d
    by (auto simp del: batch_loop.simps simp add: on_rejected_keeps)
qed

text \<open>
  The sampler whose seed advances after each submission: accepted, the next unit starts
  from seed 6; rejected, the graph keeps seed 5.
\<close>

theorem afterQueued_between_units_witness:
  "batch_loop (rejecting 1) 0 2 busy_state [] =
     batch_loop (rejecting 1) 0 1
       (busy_state\<lparr>app_graph := seed_graph None (Some bump) 6,
                   submitted := [(0, seed_prompt 5)]\<rparr>) [] \<and>
   prompt_workflow (seed_prompt 5) = map node_id (nodes (seed_graph None (Some bump) 5)) \<and>
   (\<exists>s'. batch_loop (rejecting 0) 0 2 busy_state [] = Some (Done, s', []) \<and>
         app_graph s' = seed_graph None (Some bump) 5)"
proof -
  have f: "processingQueue busy_state"
    by (simp add: busy_state_def)
  have c1: "graphToPrompt (q_hooks (rejecting 1)) (app_graph busy_state)
              = Some (seed_graph None (Some bump) 5, Inr (seed_prompt 5))"
    and c0: "graphToPrompt (q_hooks (rejecting 0)) (app_graph busy_state)
              = Some (seed_graph None (Some bump) 5, Inr (seed_prompt 5))"
    by (simp_all add: busy_state_def idle_def rejecting_def seed_graph_compiles)
  have d: "distinct (prompt_workflow (seed_prompt 5))"
    by (simp add: seed_prompt_def)
  have ro: "read_only (q_hooks (rejecting 1))"
    by (simp add: read_only_def rejecting_def plain_hooks_def)
  have a: "backend (rejecting 1) (length (submitted busy_state)) 0 (seed_prompt 5) = Accepted None"
    and r: "backend (rejecting 0) (length (submitted busy_state)) 0 (seed_prompt 5) = Rejected bad_seed"
    by (simp_all add: busy_state_def idle_def rejecting_def)
  have g: "(seed_graph None (Some bump) 5)
             \<lparr>nodes := map (\<lambda>n. if node_id n \<in> set (prompt_workflow (seed_prompt 5))
                               then n\<lparr>widgets := map run_afterQueued (widgets n)\<rparr> else n)
                         (nodes (seed_graph None (Some bump) 5))\<rparr>
           = seed_graph None (Some bump) 6"
    by (simp add: seed_graph_def seed_prompt_def run_afterQueued_def plain_node_def plain_widget_def)
  have s: "busy_state\<lparr>app_graph := seed_graph None (Some bump) 6,
             submitted := submitted busy_state @ [(0, seed_prompt 5)], lastNodeErrors := None,
             queueItems := queueItems busy_state @ concat (take 3 [])\<rparr>
           = busy_state\<lparr>app_graph := seed_graph None (Some bump) 6,
               submitted := [(0, seed_prompt 5)]\<rparr>"
    by (simp add: busy_state_def idle_def)
  have e: "bad_seed \<noteq> ErrNull \<and> formatPromptError bad_seed \<noteq> Inl TypeError"
    by (simp add: formatPromptError_def bad_seed_def)
  from afterQueued_between_units [OF f c1 d, where n = 0 and errs = None and k = 1 and sched = "[]"]
    a ro
  have 1: "batch_loop (rejecting 1) 0 2 busy_state [] =
     batch_loop (rejecting 1) 0 1
       (busy_state\<lparr>app_graph := seed_graph None (Some bump) 6,
                   submitted := [(0, seed_prompt 5)]\<rparr>) [] \<and>
     prompt_workflow (seed_prompt 5) = map node_id (nodes (seed_graph None (Some bump) 5))"
    unfolding g s by (simp del: batch_loop.simps add: eval_nat_numeral)
  from afterQueued_between_units [OF f c0 d, where n = 0 and err = bad_seed and k = 1 and sched = "[]"]
    r e
  have 2: "\<exists>s'. batch_loop (rejecting 0) 0 2 busy_state [] = Some (Done, s', []) \<and>
         app_graph s' = seed_graph None (Some bump) 5"
    by (auto simp del: batch_loop.simps simp add: eval_nat_numeral)
  from 1 2 show ?thesis by blast
qed

text \<open>
  C6 as stated fails after a rejected submission: the unit compiled next, that of the
  request that arrived meanwhile, has the seed of the rejected unit, not the advanced
  one.
\<close>

theorem afterQueued_skipped_counterexample:
  "queuePrompt (rejecting 0) 0 2 (idle (seed_graph None (Some bump) 5)) [[request 1 1]] =
     Some (Done,
       (idle (seed_graph None (Some bump) 6))
         \<lparr>submitted := [(0, seed_prompt 5), (1, seed_prompt 5)],
           dialogs := [bad_seed_shown]\<rparr>, []) \<and>
   graphToPrompt plain_hooks (after_unit (seed_prompt 5) (seed_graph None (Some bump) 5)) =
     Some (seed_graph None (Some bump) 6, Inr (seed_prompt 6)) \<and>
   seed_prompt 6 \<noteq> seed_prompt 5"
proof -
  have "queuePrompt (rejecting 0) 0 2 (idle (seed_graph None (Some bump) 5)) [[request 1 1]] =
     Some (Done,
       (idle (seed_graph None (Some bump) 6))
         \<lparr>submitted := [(0, seed_prompt 5), (1, seed_prompt 5)],
           dialogs := [bad_seed_shown]\<rparr>, [])"
    by (simp add: queue_eval seed_graph_compiles after_unit_seed_bump)
  moreover have "graphToPrompt plain_hooks
       (after_unit (seed_prompt 5) (seed_graph None (Some bump) 5)) =
     Some (seed_graph None (Some bump) 6, Inr (seed_prompt 6))"
    by (simp add: seed_graph_compiles after_unit_seed_bump)
  moreover have "seed_prompt 6 \<noteq> seed_prompt 5"
    by (simp add: seed_prompt_def)
  ultimately show ?thesis by blast
qed

subsection \<open>Every request is processed\<close>

lemma units_of_append: "units_of (xs @ ys) = units_of xs + units_of ys"
  by (simp add: units_of_def)

lemma units_of_Cons:
  "units_of (r # rs) = replicate_mset (nat (batchCount r)) (number r) + units_of rs"
  by (simp add: units_of_def)

lemma units_of_Nil: "units_of [] = {#}"
  by (simp add: units_of_def)

text \<open>The drain loop, one turn at a time.\<close>

lemma drain_empty: "queueItems s = [] \<Longrightarrow> drain env s sched = Some (Done, s, sched)"
  by (subst drain.simps) simp

lemma drain_step:
  assumes "queueItems s = Q @ [r]"
    and "batch_loop env (number r) (nat (batchCount r)) (s\<lparr>queueItems := Q\<rparr>) sched
           = Some (Done, s1, sched1)"
  shows "drain env s sched = drain env s1 sched1"
  using assms by (subst drain.simps) (simp del: drain.simps batch_loop.simps)

text \<open>
  When every compilation returns a prompt and every submission is accepted, a batch
  runs all its units, and the drain loop runs until no request is pending.
\<close>

lemma batch_all:
  assumes ok: "compile_ok env G" and acc: "accepts env"
  shows "processingQueue s \<Longrightarrow> app_graph s \<in> G \<Longrightarrow>
     \<exists>s'. batch_loop env n k s sched = Some (Done, s', drop (3 * k) sched) \<and>
          processingQueue s' \<and> app_graph s' \<in> G \<and>
          map fst (submitted s') = map fst (submitted s) @ replicate k n \<and>
          queueItems s' = queueItems s @ concat (take (3 * k) sched)"
proof (induction k arbitrary: s sched)
  case 0
  then show ?case by simp
next
  case (Suc k)
  from ok Suc.prems(2) obtain g1 p where
    c: "graphToPrompt (q_hooks env) (app_graph s) = Some (g1, Inr p)" and g: "after_unit p g1 \<in> G"
    unfolding compile_ok_def by blast
  from acc obtain errs where a: "backend env (length (submitted s)) n p = Accepted errs"
    unfolding accepts_def by blast
  let ?s3 = "s\<lparr>app_graph := after_unit p g1, submitted := submitted s @ [(n, p)],
               lastNodeErrors := errs, queueItems := queueItems s @ concat (take 3 sched)\<rparr>"
  have u: "batch_loop env n (Suc k) s sched = batch_loop env n k ?s3 (drop 3 sched)"
    by (rule accepted_unit [OF Suc.prems(1) c a])
  have f: "processingQueue ?s3" using Suc.prems(1) by simp
  have gg: "app_graph ?s3 \<in> G" using g by simp
  from Suc.IH [OF f gg, of "drop 3 sched"] obtain s' where
    r: "batch_loop env n k ?s3 (drop 3 sched) = Some (Done, s', drop (3 * k) (drop 3 sched))"
    and p: "processingQueue s'" "app_graph s' \<in> G"
    and m: "map fst (submitted s') = map fst (submitted ?s3) @ replicate k n"
    and q: "queueItems s' = queueItems ?s3 @ concat (take (3 * k) (drop 3 sched))"
    by blast
  have t: "take (3 * Suc k) sched = take 3 sched @ take (3 * k) (drop 3 sched)"
    using take_add [of 3 "3 * k" sched] by simp
  have d: "drop (3 * k) (drop 3 sched) = drop (3 * Suc k) sched"
    by (simp add: ac_simps)
  have m': "map fst (submitted s') = map fst (submitted s) @ replicate (Suc k) n"
    using m by simp
  have q': "queueItems s' = queueItems s @ concat (take (3 * Suc k) sched)"
    using q t by simp
  from u r d p m' q' show ?case by (simp del: batch_loop.simps)
qed

lemma drain_all:
  "compile_ok env G \<Longrightarrow> accepts env \<Longrightarrow> processingQueue s \<Longrightarrow> app_graph s \<in> G \<Longrightarrow>
     \<exists>s' m. drain env s sched = Some (Done, s', drop m sched) \<and>
          queueItems s' = [] \<and> processingQueue s' \<and>
          mset (map fst (submitted s')) =
            mset (map fst (submitted s)) + units_of (queueItems s @ concat (take m sched))"
proof (induction env s sched rule: drain.induct)
  case (1 env s sched)
  note ok = "1.prems"(1) and acc = "1.prems"(2) and fl = "1.prems"(3) and gr = "1.prems"(4)
  show ?case
  proof (cases "queueItems s = []")
    case True
    have "drain env s sched = Some (Done, s, drop 0 sched)"
      using drain_empty [OF True] by simp
    moreover have "mset (map fst (submitted s)) =
        mset (map fst (submitted s)) + units_of (queueItems s @ concat (take 0 sched))"
      using True by (simp add: units_of_def)
    ultimately show ?thesis using True fl by blast
  next
    case False
    define Q where "Q = butlast (queueItems s)"
    define r where "r = last (queueItems s)"
    define k where "k = nat (batchCount r)"
    have qs: "queueItems s = Q @ [r]" using False by (simp add: Q_def r_def)
    have f0: "processingQueue (s\<lparr>queueItems := Q\<rparr>)" "app_graph (s\<lparr>queueItems := Q\<rparr>) \<in> G"
      using fl gr by simp_all
    from batch_all [OF ok acc f0, of "number r" k sched] obtain s1 where
      b: "batch_loop env (number r) k (s\<lparr>queueItems := Q\<rparr>) sched = Some (Done, s1, drop (3 * k) sched)"
      and p1: "processingQueue s1" "app_graph s1 \<in> G"
      and m1: "map fst (submitted s1) = map fst (submitted s) @ replicate k (number r)"
      and q1: "queueItems s1 = Q @ concat (take (3 * k) sched)"
      by auto
    have b': "batch_loop env (number (last (queueItems s))) (nat (batchCount (last (queueItems s))))
               (s\<lparr>queueItems := butlast (queueItems s)\<rparr>) sched = Some (Done, s1, drop (3 * k) sched)"
      using b by (simp add: Q_def r_def k_def)
    from "1.IH" [OF False b' refl refl refl ok acc p1] obtain s' m where
      d: "drain env s1 (drop (3 * k) sched) = Some (Done, s', drop m (drop (3 * k) sched))"
      and e: "queueItems s' = []" "processingQueue s'"
      and ms: "mset (map fst (submitted s')) =
            mset (map fst (submitted s1)) +
            units_of (queueItems s1 @ concat (take m (drop (3 * k) sched)))"
      by blast
    have st: "drain env s sched = drain env s1 (drop (3 * k) sched)"
      using drain_step [OF qs] b by (simp add: k_def)
    have t: "take (3 * k + m) sched = take (3 * k) sched @ take m (drop (3 * k) sched)"
      by (rule take_add)
    have dd: "drop m (drop (3 * k) sched) = drop (3 * k + m) sched"
      by (simp add: ac_simps)
    have "mset (map fst (submitted s')) =
            mset (map fst (submitted s)) + units_of (queueItems s @ concat (take (3 * k + m) sched))"
      using ms m1 q1 qs t by (simp add: units_of_append units_of_Cons units_of_Nil k_def)
    with st d dd e show ?thesis by (metis)
  qed
qed

lemma concat_take_empty: "concat xs = [] \<Longrightarrow> concat (take m xs) = []"
  by (auto dest: in_set_takeD)

lemma queuePrompt_done:
  assumes "\<not> processingQueue s"
    and "drain env (s\<lparr>queueItems := queueItems s @ [\<lparr>number = n, batchCount = b\<rparr>],
                      processingQueue := True, lastNodeErrors := None\<rparr>) sched
           = Some (Done, s2, sched2)"
  shows "queuePrompt env n b s sched = Some (Done, s2\<lparr>processingQueue := False\<rparr>, sched2)"
  using assms by (simp add: queuePrompt_def del: drain.simps)

lemma queuePrompt_all:
  assumes ok: "compile_ok env G" and acc: "accepts env"
    and gr: "app_graph s \<in> G" and idle: "\<not> processingQueue s"
  shows "\<exists>s' m. queuePrompt env n b s sched = Some (Done, s', drop m sched) \<and>
           queueItems s' = [] \<and> \<not> processingQueue s' \<and>
           mset (map fst (submitted s')) =
             mset (map fst (submitted s)) +
             units_of (queueItems s @ \<lparr>number = n, batchCount = b\<rparr> # concat (take m sched))"
proof -
  let ?s1 = "s\<lparr>queueItems := queueItems s @ [\<lparr>number = n, batchCount = b\<rparr>],
               processingQueue := True, lastNodeErrors := None\<rparr>"
  have f: "processingQueue ?s1" and g: "app_graph ?s1 \<in> G"
    using gr by simp_all
  from drain_all [OF ok acc f g, of sched] obtain s2 m where
    d: "drain env ?s1 sched = Some (Done, s2, drop m sched)" and e: "queueItems s2 = []"
    and ms: "mset (map fst (submitted s2)) =
             mset (map fst (submitted ?s1)) + units_of (queueItems ?s1 @ concat (take m sched))"
    by blast
  have "queuePrompt env n b s sched = Some (Done, s2\<lparr>processingQueue := False\<rparr>, drop m sched)"
    by (rule queuePrompt_done [OF idle d])
  moreover have "queueItems (s2\<lparr>processingQueue := False\<rparr>) = []"
    "\<not> processingQueue (s2\<lparr>processingQueue := False\<rparr>)"
    using e by simp_all
  moreover have "mset (map fst (submitted (s2\<lparr>processingQueue := False\<rparr>))) =
             mset (map fst (submitted s)) +
             units_of (queueItems s @ \<lparr>number = n, batchCount = b\<rparr> # concat (take m sched))"
    using ms by simp
  ultimately show ?thesis by blast
qed

lemma queuePrompt_two:
  assumes ok: "compile_ok env G" and acc: "accepts env"
    and gr: "app_graph s \<in> G" and idle: "\<not> processingQueue s"
    and em: "queueItems s = []"
    and one: "concat (take (3 * nat b) sched) = [\<lparr>number = n2, batchCount = b2\<rparr>]"
    and rest: "concat (drop (3 * nat b) sched) = []"
  shows "\<exists>s'. queuePrompt env n b s sched = Some (Done, s', drop (3 * nat b + 3 * nat b2) sched) \<and>
           queueItems s' = [] \<and>
           map fst (submitted s') =
             map fst (submitted s) @ replicate (nat b) n @ replicate (nat b2) n2"
proof -
  let ?s1 = "s\<lparr>queueItems := queueItems s @ [\<lparr>number = n, batchCount = b\<rparr>],
               processingQueue := True, lastNodeErrors := None\<rparr>"
  let ?r1 = "\<lparr>number = n, batchCount = b\<rparr>"
  let ?r2 = "\<lparr>number = n2, batchCount = b2\<rparr>"
  have q1: "queueItems ?s1 = [] @ [?r1]" using em by simp
  have f1: "processingQueue (?s1\<lparr>queueItems := []\<rparr>)" and g1: "app_graph (?s1\<lparr>queueItems := []\<rparr>) \<in> G"
    using gr by simp_all
  from batch_all [OF ok acc f1 g1, of n "nat b" sched] obtain sa where
    ba: "batch_loop env n (nat b) (?s1\<lparr>queueItems := []\<rparr>) sched = Some (Done, sa, drop (3 * nat b) sched)"
    and fa: "processingQueue sa" and ga: "app_graph sa \<in> G"
    and ma: "map fst (submitted sa) = map fst (submitted s) @ replicate (nat b) n"
    and qa: "queueItems sa = [?r2]"
    using one by auto
  have d1: "drain env ?s1 sched = drain env sa (drop (3 * nat b) sched)"
    using drain_step [OF q1, where env = env and ?s1.0 = sa and sched = sched] ba by simp
  have q2: "queueItems sa = [] @ [?r2]" using qa by simp
  have f2: "processingQueue (sa\<lparr>queueItems := []\<rparr>)" and g2: "app_graph (sa\<lparr>queueItems := []\<rparr>) \<in> G"
    using fa ga by simp_all
  from batch_all [OF ok acc f2 g2, of n2 "nat b2" "drop (3 * nat b) sched"] obtain sb where
    bb: "batch_loop env n2 (nat b2) (sa\<lparr>queueItems := []\<rparr>) (drop (3 * nat b) sched)
           = Some (Done, sb, drop (3 * nat b2) (drop (3 * nat b) sched))"
    and mb: "map fst (submitted sb) = map fst (submitted sa) @ replicate (nat b2) n2"
    and qb: "queueItems sb = [] @ concat (take (3 * nat b2) (drop (3 * nat b) sched))"
    by auto
  have eb: "queueItems sb = []"
    using qb concat_take_empty [OF rest] by simp
  have d2: "drain env sa (drop (3 * nat b) sched)
              = drain env sb (drop (3 * nat b2) (drop (3 * nat b) sched))"
    using drain_step [OF q2, where env = env and ?s1.0 = sb and sched = "drop (3 * nat b) sched"] bb by simp
  have dd: "drop (3 * nat b2) (drop (3 * nat b) sched) = drop (3 * nat b + 3 * nat b2) sched"
    by (simp add: ac_simps)
  have d: "drain env ?s1 sched = Some (Done, sb, drop (3 * nat b + 3 * nat b2) sched)"
    using d1 d2 drain_empty [OF eb, of env] dd by simp
  have "queuePrompt env n b s sched
          = Some (Done, sb\<lparr>processingQueue := False\<rparr>, drop (3 * nat b + 3 * nat b2) sched)"
    by (rule queuePrompt_done [OF idle d])
  moreover have "queueItems (sb\<lparr>processingQueue := False\<rparr>) = []"
    using eb by simp
  moreover have "map fst (submitted (sb\<lparr>processingQueue := False\<rparr>)) =
             map fst (submitted s) @ replicate (nat b) n @ replicate (nat b2) n2"
    using ma mb by simp
  ultimately show ?thesis by blast
qed

text \<open>
  C2 (as amended). Let every compilation return a prompt and the backend accept every
  submission. A call of \<open>queuePrompt\<close> at rest then returns with no request pending,
  and every request, the call's own and those that arrived during the drain, has been
  submitted as many times as its batch count. When the call is made with nothing
  pending and one more call arrives before the first request's units are done (and none
  after), the units of the first request are submitted first, then those of the second.
\<close>

theorem queuePrompt_processes_all:
  assumes "compile_ok env G" and "accepts env" and "app_graph s \<in> G" and "\<not> processingQueue s"
  shows "(\<exists>s' m. queuePrompt env n b s sched = Some (Done, s', drop m sched) \<and>
            queueItems s' = [] \<and> \<not> processingQueue s' \<and>
            mset (map fst (submitted s')) =
              mset (map fst (submitted s)) +
              units_of (queueItems s @ \<lparr>number = n, batchCount = b\<rparr> # concat (take m sched))) \<and>
         (queueItems s = [] \<and>
          concat (take (3 * nat b) sched) = [\<lparr>number = n2, batchCount = b2\<rparr>] \<and>
          concat (drop (3 * nat b) sched) = [] \<longrightarrow>
            (\<exists>s'. queuePrompt env n b s sched
                    = Some (Done, s', drop (3 * nat b + 3 * nat b2) sched) \<and>
                  queueItems s' = [] \<and>
                  map fst (submitted s') =
                    map fst (submitted s) @ replicate (nat b) n @ replicate (nat b2) n2))"
  using queuePrompt_all [OF assms, of n b sched] queuePrompt_two [OF assms, of b sched n2 b2 n]
  by blast

text \<open>A request for one unit, and a request for two units that arrives meanwhile.\<close>

theorem queuePrompt_processes_all_witness:
  "queuePrompt accepting 0 1 (idle (seed_graph None None 5)) [[request 1 2]] =
     Some (Done,
       (idle (seed_graph None None 5))
         \<lparr>submitted := [(0, seed_prompt 5), (1, seed_prompt 5), (1, seed_prompt 5)]\<rparr>, []) \<and>
   (\<exists>s'. queuePrompt accepting 0 1 (idle (seed_graph None None 5)) [[request 1 2]] =
           Some (Done, s', []) \<and>
         queueItems s' = [] \<and> map fst (submitted s') = [0, 1, 1])"
proof -
  have ok: "compile_ok accepting {seed_graph None None 5}"
    by (simp add: compile_ok_def accepting_def seed_graph_compiles after_unit_seed_none)
  have acc: "accepts accepting"
    by (simp add: accepts_def accepting_def)
  have gr: "app_graph (idle (seed_graph None None 5)) \<in> {seed_graph None None 5}"
    and id: "\<not> processingQueue (idle (seed_graph None None 5))"
    and em: "queueItems (idle (seed_graph None None 5)) = []"
    by (simp_all add: idle_def)
  have one: "concat (take (3 * nat 1) [[request 1 2]]) = [\<lparr>number = 1, batchCount = 2\<rparr>]"
    and rest: "concat (drop (3 * nat 1) [[request 1 2]]) = []"
    by (simp_all add: request_def)
  from queuePrompt_processes_all [OF ok acc gr id, where n = 0 and b = 1
      and sched = "[[request 1 2]]" and ?n2.0 = 1 and ?b2.0 = 2] em one rest
  have "\<exists>s'. queuePrompt accepting 0 1 (idle (seed_graph None None 5)) [[request 1 2]] =
           Some (Done, s', []) \<and>
         queueItems s' = [] \<and> map fst (submitted s') = [0, 1, 1]"
    by (simp add: idle_def eval_nat_numeral)
  with two_calls_run show ?thesis by blast
qed

text \<open>
  C2 as stated fails. Requests are taken from the end of the pending list: of three
  calls made one after the other, the third is processed before the second. And a
  request whose first submission is rejected is not fully processed: of its two units
  one is submitted.
\<close>

theorem queuePrompt_order_counterexample:
  "queuePrompt accepting 1 1 (idle (seed_graph None None 5)) [[request 2 1, request 3 1]] =
     Some (Done,
       (idle (seed_graph None None 5))
         \<lparr>submitted := [(1, seed_prompt 5), (3, seed_prompt 5), (2, seed_prompt 5)]\<rparr>, []) \<and>
   queuePrompt (rejecting 0) 0 2 (idle (seed_graph None None 5)) [] =
     Some (Done,
       (idle (seed_graph None None 5))
         \<lparr>submitted := [(0, seed_prompt 5)], dialogs := [bad_seed_shown],
           lastNodeErrors := Some seed_errors\<rparr>, [])"
  by (simp add: queue_eval seed_graph_compiles after_unit_seed_none)


end
